theory Spec2Isabelle
  imports Main
begin

section \<open>Strings\<close>

text \<open>
  A JavaScript string is a sequence of code units. The model uses \<^typ>\<open>string\<close>, so it
  covers the strings whose code units are below 256; \<open>of_char\<close> reads the code unit.
  The regular-expression classes are the ones of a JavaScript regex without the unicode
  flag: \<^verbatim>\<open>\d\<close> is 0-9, \<^verbatim>\<open>\w\<close> is A-Z, a-z, 0-9 and the underscore, and
  \<^verbatim>\<open>\s\<close> is the white space and line terminator set, which below 256 is
  tab, line feed, vertical tab, form feed, carriage return, space and no-break space.
  \<^verbatim>\<open>String.prototype.trim\<close> strips exactly that set from both ends.
\<close>

definition isDigit :: "char \<Rightarrow> bool" where
  "isDigit c = (let n = (of_char c :: nat) in 48 \<le> n \<and> n \<le> 57)"

definition isWord :: "char \<Rightarrow> bool" where
  "isWord c = (let n = (of_char c :: nat) in
     (48 \<le> n \<and> n \<le> 57) \<or> (65 \<le> n \<and> n \<le> 90) \<or> (97 \<le> n \<and> n \<le> 122) \<or> n = 95)"

definition isSpace :: "char \<Rightarrow> bool" where
  "isSpace c = (let n = (of_char c :: nat) in (9 \<le> n \<and> n \<le> 13) \<or> n = 32 \<or> n = 160)"

definition trim :: "string \<Rightarrow> string" where
  "trim s = rev (dropWhile isSpace (rev (dropWhile isSpace s)))"

text \<open>\<^verbatim>\<open>String.prototype.toLowerCase\<close> on code units below 256: A-Z and the
  accented capitals 192-222 (without the multiplication sign 215) move up by 32.\<close>

definition toLowerChar :: "char \<Rightarrow> char" where
  "toLowerChar c = (let n = (of_char c :: nat) in
     if (65 \<le> n \<and> n \<le> 90) \<or> (192 \<le> n \<and> n \<le> 222 \<and> n \<noteq> 215)
     then char_of (n + 32) else c)"

definition toLowerCase :: "string \<Rightarrow> string" where
  "toLowerCase s = map toLowerChar s"

text \<open>\<^verbatim>\<open>s.includes(key)\<close>: \<open>key\<close> occurs in \<open>s\<close> as a contiguous substring.\<close>

fun strIncludes :: "string \<Rightarrow> string \<Rightarrow> bool" where
  "strIncludes [] key = (key = [])"
| "strIncludes (c # cs) key = (take (length key) (c # cs) = key \<or> strIncludes cs key)"

text \<open>\<^verbatim>\<open>s.split(':')\<close>, with the part being read kept reversed in \<open>acc\<close>.\<close>

fun splitColon :: "string \<Rightarrow> string \<Rightarrow> string list" where
  "splitColon acc [] = [rev acc]"
| "splitColon acc (c # cs) =
     (if c = CHR '':'' then rev acc # splitColon [] cs else splitColon (c # acc) cs)"

text \<open>JavaScript truthiness of a value that is a string, null or undefined
  (\<open>None\<close>): only a non-empty string is truthy.\<close>

definition truthy :: "string option \<Rightarrow> bool" where
  "truthy v = (case v of None \<Rightarrow> False | Some s \<Rightarrow> s \<noteq> [])"

section \<open>Page data\<close>

text \<open>
  Page data as the splitter reads it. \<open>keyValuePairs\<close> maps a key to a string, as
  \<^verbatim>\<open>TextractService._extractKeyValuePairs\<close> builds it. A table cell is a string, or a
  hole or another falsy value that is not a string (\<open>Hole\<close>: undefined, null, 0), or a
  truthy value that is not a string (\<open>NonString\<close>: a number, true, an object). A row
  is an array of cells, or not an array (\<open>None\<close>). The \<open>rows\<close> of a table are
  falsy (\<open>NoRows\<close>), an array, or a truthy value that is not an array and has no
  \<^verbatim>\<open>forEach\<close> (\<open>RowsNotArray\<close>: a number, a string, a plain object). An entry of
  \<open>tables\<close> is a table, or null or undefined (\<open>None\<close>). A missing
  \<open>keyValuePairs\<close> or \<open>tables\<close> and a null page are \<open>None\<close>. The other
  fields of a page (bytes, text, confidence, raw blocks) are not read by the splitter.
\<close>

datatype cell = Hole | Str string | NonString

datatype rowsValue = NoRows | RowArray "cell list option list" | RowsNotArray

record table =
  rows :: rowsValue

record pageData =
  index :: nat
  keyValuePairs :: "(string \<rightharpoonup> string) option"
  tables :: "table option list option"

type_synonym page = "pageData option"

record patientInfo =
  name :: "string option"
  patientId :: "string option"
  dob :: "string option"

text \<open>The errors of the splitter: the two it throws itself, and the TypeError that the
  runtime throws on a property or method of a value that has none.\<close>

datatype error = NoPageData | NoValidReports | TypeError

text \<open>Truthiness of a cell, and \<^verbatim>\<open>a || b\<close> on cells.\<close>

definition cellTruthy :: "cell \<Rightarrow> bool" where
  "cellTruthy c = (case c of Hole \<Rightarrow> False | Str s \<Rightarrow> s \<noteq> [] | NonString \<Rightarrow> True)"

definition jsOr :: "cell \<Rightarrow> cell \<Rightarrow> cell" where
  "jsOr a b = (if cellTruthy a then a else b)"

text \<open>\<^verbatim>\<open>cell.split(':')[1]\<close>: the second part, undefined when there is no colon.\<close>

definition splitSecond :: "string \<Rightarrow> cell" where
  "splitSecond s = (case splitColon [] s of a # b # rest \<Rightarrow> Str b | _ \<Rightarrow> Hole)"

section \<open>DocumentSplitter: identity extraction\<close>

text \<open>\<^verbatim>\<open>_cleanPatientValue\<close>. The replace deletes every code unit that is not a word
  character, white space or a hyphen. The argument is a string here, so the
  \<^verbatim>\<open>typeof\<close> test only rejects the empty string.\<close>

definition keepChar :: "char \<Rightarrow> bool" where
  "keepChar c = (isWord c \<or> isSpace c \<or> c = CHR ''-'')"

definition cleanPatientValue :: "string \<Rightarrow> string option" where
  "cleanPatientValue v = (if v = [] then None else Some (trim (filter keepChar (trim v))))"

text \<open>One of the three alias loops of \<^verbatim>\<open>_extractPatientInfo\<close>: the first key with a
  truthy value is cleaned and the loop breaks; the field stays null when no key has one.\<close>

fun probeKeys :: "(string \<rightharpoonup> string) \<Rightarrow> string list \<Rightarrow> string option" where
  "probeKeys kv [] = None"
| "probeKeys kv (key # keys) =
     (if truthy (kv key) then cleanPatientValue (the (kv key)) else probeKeys kv keys)"

definition nameKeys :: "string list" where
  "nameKeys = [''patient name'', ''name'', ''patient'', ''full name'']"

definition idKeys :: "string list" where
  "idKeys = [''patient id'', ''id'', ''mrn'', ''medical record number'', ''patient #'', ''account'']"

definition dobKeys :: "string list" where
  "dobKeys = [''dob'', ''date of birth'', ''birth date'', ''birthdate'']"

definition probeKeyValuePairs :: "(string \<rightharpoonup> string) \<Rightarrow> patientInfo" where
  "probeKeyValuePairs kv =
     \<lparr>name = probeKeys kv nameKeys, patientId = probeKeys kv idKeys, dob = probeKeys kv dobKeys\<rparr>"

text \<open>\<^verbatim>\<open>_extractFromTables\<close>, with its own key lists.\<close>

definition tableNameKeys :: "string list" where
  "tableNameKeys = [''patient name'', ''name'', ''patient'']"

definition tableIdKeys :: "string list" where
  "tableIdKeys = [''patient id'', ''id'', ''mrn'', ''medical record'']"

definition tableDobKeys :: "string list" where
  "tableDobKeys = [''dob'', ''date of birth'', ''birth date'']"

text \<open>
  The value found for a label cell (lines 171 and 172, and the same two lines for the id
  and the date of birth): \<open>valueCell\<close> is the following cell of the row if truthy, else
  the second colon part of the cell itself. The test \<^verbatim>\<open>valueCell && valueCell.trim() !== cellLower\<close>
  calls \<^verbatim>\<open>trim\<close> on every truthy \<open>valueCell\<close>: on a truthy value that is not a
  string the call throws a TypeError. The result is the value to assign, if any.
\<close>

definition tableValue :: "string \<Rightarrow> cell \<Rightarrow> error + string option" where
  "tableValue cell nxt =
     (let valueCell = jsOr nxt (splitSecond cell) in
      case valueCell of
        Hole \<Rightarrow> Inr None
      | NonString \<Rightarrow> Inl TypeError
      | Str v \<Rightarrow> if v \<noteq> [] \<and> trim v \<noteq> toLowerCase cell then Inr (Some v) else Inr None)"

text \<open>One of the three checks on a label cell: entered when the field is still falsy and
  the lowercased cell includes one of the keys.\<close>

definition tableField ::
  "string list \<Rightarrow> string \<Rightarrow> cell \<Rightarrow> string option \<Rightarrow> error + string option" where
  "tableField keys cell nxt cur =
     (if \<not> truthy cur \<and> list_ex (strIncludes (toLowerCase cell)) keys
      then (case tableValue cell nxt of
              Inl e \<Rightarrow> Inl e
            | Inr (Some v) \<Rightarrow> Inr (cleanPatientValue v)
            | Inr None \<Rightarrow> Inr cur)
      else Inr cur)"

text \<open>The body of \<^verbatim>\<open>row.forEach\<close>: a cell that is falsy or not a string is passed
  over; on a string the checks for name, id and date of birth run in this order.\<close>

definition cellStep :: "cell \<Rightarrow> cell \<Rightarrow> patientInfo \<Rightarrow> error + patientInfo" where
  "cellStep cell nxt info =
     (case cell of
        Hole \<Rightarrow> Inr info
      | NonString \<Rightarrow> Inr info
      | Str c \<Rightarrow>
          if c = [] then Inr info
          else (case tableField tableNameKeys c nxt (name info) of
                  Inl e \<Rightarrow> Inl e
                | Inr n \<Rightarrow>
                    (case tableField tableIdKeys c nxt (patientId info) of
                       Inl e \<Rightarrow> Inl e
                     | Inr i \<Rightarrow>
                         (case tableField tableDobKeys c nxt (dob info) of
                            Inl e \<Rightarrow> Inl e
                          | Inr d \<Rightarrow> Inr \<lparr>name = n, patientId = i, dob = d\<rparr>))))"

text \<open>\<^verbatim>\<open>row.forEach((cell, index) => ...)\<close>: \<open>row[index + 1]\<close> is the head of the
  remaining cells, undefined after the last cell. An error ends the loop.\<close>

fun rowLoop :: "cell list \<Rightarrow> patientInfo \<Rightarrow> error + patientInfo" where
  "rowLoop [] info = Inr info"
| "rowLoop (cell # rest) info =
     (case cellStep cell (case rest of [] \<Rightarrow> Hole | nxt # others \<Rightarrow> nxt) info of
        Inl e \<Rightarrow> Inl e
      | Inr info' \<Rightarrow> rowLoop rest info')"

text \<open>\<^verbatim>\<open>table.rows.forEach\<close>: a row that is not an array is passed over.\<close>

fun rowsLoop :: "cell list option list \<Rightarrow> patientInfo \<Rightarrow> error + patientInfo" where
  "rowsLoop [] info = Inr info"
| "rowsLoop (row # others) info =
     (case row of
        None \<Rightarrow> rowsLoop others info
      | Some cells \<Rightarrow>
          (case rowLoop cells info of
             Inl e \<Rightarrow> Inl e
           | Inr info' \<Rightarrow> rowsLoop others info'))"

text \<open>\<^verbatim>\<open>tables.forEach\<close>: \<^verbatim>\<open>table.rows\<close> on a null table throws, falsy rows are
  passed over, and \<^verbatim>\<open>forEach\<close> on rows that have none throws.\<close>

fun extractFromTables :: "table option list \<Rightarrow> patientInfo \<Rightarrow> error + patientInfo" where
  "extractFromTables [] info = Inr info"
| "extractFromTables (t # ts) info =
     (case t of
        None \<Rightarrow> Inl TypeError
      | Some tb \<Rightarrow>
          (case rows tb of
             NoRows \<Rightarrow> extractFromTables ts info
           | RowsNotArray \<Rightarrow> Inl TypeError
           | RowArray rs \<Rightarrow>
               (case rowsLoop rs info of
                  Inl e \<Rightarrow> Inl e
                | Inr info' \<Rightarrow> extractFromTables ts info')))"

text \<open>The identity fields of a page after key-value probing and table fallback (lines
  72 to 112 of \<^verbatim>\<open>_extractPatientInfo\<close>).\<close>

definition resolveFields :: "pageData \<Rightarrow> error + patientInfo" where
  "resolveFields pd =
     (let info = (case keyValuePairs pd of
                    None \<Rightarrow> \<lparr>name = None, patientId = None, dob = None\<rparr>
                  | Some kv \<Rightarrow> probeKeyValuePairs kv) in
      case tables pd of
        None \<Rightarrow> Inr info
      | Some ts \<Rightarrow>
          if (\<not> truthy (name info) \<or> \<not> truthy (patientId info)) \<and> ts \<noteq> []
          then extractFromTables ts info else Inr info)"

definition extractPatientInfo :: "page \<Rightarrow> error + patientInfo option" where
  "extractPatientInfo p =
     (case p of
        None \<Rightarrow> Inr None
      | Some pd \<Rightarrow>
          (case resolveFields pd of
             Inl e \<Rightarrow> Inl e
           | Inr info \<Rightarrow>
               if \<not> truthy (name info) \<and> \<not> truthy (patientId info) then Inr None
               else Inr (Some info)))"

text \<open>\<^verbatim>\<open>_isDifferentPatient\<close>: every test of a field is a truthiness test.\<close>

definition isDifferentPatient :: "patientInfo option \<Rightarrow> patientInfo option \<Rightarrow> bool" where
  "isDifferentPatient currentPatient newPatient =
     (case currentPatient of
        None \<Rightarrow> newPatient \<noteq> None
      | Some cur \<Rightarrow>
          (case newPatient of
             None \<Rightarrow> False
           | Some new \<Rightarrow>
               if truthy (patientId cur) \<and> truthy (patientId new)
               then patientId cur \<noteq> patientId new
               else if truthy (name cur) \<and> truthy (name new)
               then name cur \<noteq> name new
               else if truthy (dob cur) \<and> truthy (dob new)
               then dob cur \<noteq> dob new
               else False))"

section \<open>DocumentSplitter: splitting\<close>

text \<open>A report as \<^verbatim>\<open>_finalizeReport\<close> builds it; \<open>createdAt\<close>, the time of the call,
  is left out. \<^verbatim>\<open>pages[0]?.index || 0\<close> is 0 for a null page.\<close>

record report =
  reportIndex :: nat
  pages :: "page list"
  pageCount :: nat
  firstPageIndex :: nat
  lastPageIndex :: nat
  hasPatientData :: bool

definition pageIndexOr0 :: "page \<Rightarrow> nat" where
  "pageIndexOr0 p = (case p of None \<Rightarrow> 0 | Some pd \<Rightarrow> index pd)"

text \<open>\<^verbatim>\<open>pages.some(page => this._extractPatientInfo(page) !== null)\<close>: the pages are
  read in order up to the first one with a candidate.\<close>

fun somePatientData :: "page list \<Rightarrow> error + bool" where
  "somePatientData [] = Inr False"
| "somePatientData (p # ps) =
     (case extractPatientInfo p of
        Inl e \<Rightarrow> Inl e
      | Inr None \<Rightarrow> somePatientData ps
      | Inr (Some info) \<Rightarrow> Inr True)"

definition finalizeReport :: "page list \<Rightarrow> nat \<Rightarrow> error + report" where
  "finalizeReport ps ri =
     (case somePatientData ps of
        Inl e \<Rightarrow> Inl e
      | Inr h \<Rightarrow>
          Inr \<lparr>reportIndex = ri,
               pages = ps,
               pageCount = length ps,
               firstPageIndex = (case ps of [] \<Rightarrow> 0 | p # rest \<Rightarrow> pageIndexOr0 p),
               lastPageIndex = (if ps = [] then 0 else pageIndexOr0 (last ps)),
               hasPatientData = h\<rparr>)"

text \<open>\<^verbatim>\<open>_validateReports\<close>: the filter, the throw when nothing is left, and the
  summary, of which only the extraction on the first page of each report is kept (the
  lines it logs are not modelled).\<close>

fun logSummary :: "report list \<Rightarrow> error + unit" where
  "logSummary [] = Inr ()"
| "logSummary (r # rs) =
     (case extractPatientInfo (case pages r of [] \<Rightarrow> None | firstPage # rest \<Rightarrow> firstPage) of
        Inl e \<Rightarrow> Inl e
      | Inr patientInfo \<Rightarrow> logSummary rs)"

definition validateReports :: "report list \<Rightarrow> error + report list" where
  "validateReports rs =
     (let validReports = filter (\<lambda>r. pages r \<noteq> []) rs in
      if validReports = [] then Inl NoValidReports
      else (case logSummary validReports of
              Inl e \<Rightarrow> Inl e
            | Inr u \<Rightarrow> Inr validReports))"

text \<open>The three variables of the loop of \<^verbatim>\<open>splitIntoPatientReports\<close>.\<close>

record splitState =
  reports :: "report list"
  current :: "page list"
  currentPatientInfo :: "patientInfo option"

text \<open>Lines 22 to 37: the extraction, the decision on the page, then the push.\<close>

definition addPage :: "splitState \<Rightarrow> page \<Rightarrow> error + splitState" where
  "addPage s pg =
     (case extractPatientInfo pg of
        Inl e \<Rightarrow> Inl e
      | Inr pagePatientInfo \<Rightarrow>
          (let isDifferent = isDifferentPatient (currentPatientInfo s) pagePatientInfo in
           case (if isDifferent \<and> current s \<noteq> []
                 then (case finalizeReport (current s) (length (reports s)) of
                         Inl e \<Rightarrow> Inl e
                       | Inr r \<Rightarrow>
                           Inr \<lparr>reports = reports s @ [r],
                                current = [],
                                currentPatientInfo = pagePatientInfo\<rparr>)
                 else if currentPatientInfo s = None \<and> pagePatientInfo \<noteq> None
                 then Inr (s\<lparr>currentPatientInfo := pagePatientInfo\<rparr>)
                 else Inr s) of
             Inl e \<Rightarrow> Inl e
           | Inr s1 \<Rightarrow> Inr (s1\<lparr>current := current s1 @ [pg]\<rparr>)))"

text \<open>Lines 39 to 45: the safety check. \<open>maxPagesPerPatient\<close> is an integer of the
  configuration, of any sign.\<close>

definition safetyCheck :: "int \<Rightarrow> splitState \<Rightarrow> error + splitState" where
  "safetyCheck maxPagesPerPatient s =
     (if int (length (current s)) \<ge> maxPagesPerPatient
      then (case finalizeReport (current s) (length (reports s)) of
              Inl e \<Rightarrow> Inl e
            | Inr r \<Rightarrow> Inr \<lparr>reports = reports s @ [r], current = [], currentPatientInfo = None\<rparr>)
      else Inr s)"

definition pageStep :: "int \<Rightarrow> splitState \<Rightarrow> page \<Rightarrow> error + splitState" where
  "pageStep maxPagesPerPatient s pg =
     (case addPage s pg of
        Inl e \<Rightarrow> Inl e
      | Inr s1 \<Rightarrow> safetyCheck maxPagesPerPatient s1)"

fun scanPages :: "int \<Rightarrow> splitState \<Rightarrow> page list \<Rightarrow> error + splitState" where
  "scanPages maxPagesPerPatient s [] = Inr s"
| "scanPages maxPagesPerPatient s (pg # rest) =
     (case pageStep maxPagesPerPatient s pg of
        Inl e \<Rightarrow> Inl e
      | Inr s' \<Rightarrow> scanPages maxPagesPerPatient s' rest)"

definition initialState :: splitState where
  "initialState = \<lparr>reports = [], current = [], currentPatientInfo = None\<rparr>"

text \<open>Lines 48 to 51: the last report.\<close>

definition flushLast :: "splitState \<Rightarrow> error + report list" where
  "flushLast s =
     (if current s \<noteq> []
      then (case finalizeReport (current s) (length (reports s)) of
              Inl e \<Rightarrow> Inl e
            | Inr r \<Rightarrow> Inr (reports s @ [r]))
      else Inr (reports s))"

text \<open>The argument is \<open>None\<close> for a null or undefined \<open>pageDataArray\<close>.\<close>

definition splitIntoPatientReports :: "int \<Rightarrow> page list option \<Rightarrow> error + report list" where
  "splitIntoPatientReports maxPagesPerPatient pageDataArray =
     (case pageDataArray of
        None \<Rightarrow> Inl NoPageData
      | Some ps \<Rightarrow>
          if ps = [] then Inl NoPageData
          else (case scanPages maxPagesPerPatient initialState ps of
                  Inl e \<Rightarrow> Inl e
                | Inr s \<Rightarrow>
                    (case flushLast s of
                       Inl e \<Rightarrow> Inl e
                     | Inr rs \<Rightarrow> validateReports rs)))"

section \<open>MetadataExtractor: field cleaning and key-value probing\<close>

text \<open>The two regular-expression tests of \<^verbatim>\<open>_cleanValue\<close>: \<^verbatim>\<open>/^\d+$/\<close> matches a
  non-empty string of digits, \<^verbatim>\<open>/\d/\<close> a string with a digit somewhere.\<close>

fun digitsOnly :: "string \<Rightarrow> bool" where
  "digitsOnly [] = False"
| "digitsOnly [c] = isDigit c"
| "digitsOnly (c # cs) = (isDigit c \<and> digitsOnly cs)"

fun hasDigit :: "string \<Rightarrow> bool" where
  "hasDigit [] = False"
| "hasDigit (c # cs) = (isDigit c \<or> hasDigit cs)"

text \<open>\<^verbatim>\<open>_cleanValue(value, field)\<close> on a string value; a field other than the three
  kinds gets the trimmed value.\<close>

definition cleanValue :: "string \<Rightarrow> string \<Rightarrow> string option" where
  "cleanValue v field =
     (if v = [] then None
      else let cleaned = trim v in
        if field = ''name'' then
          (let cleaned = trim (filter keepChar cleaned) in
           if length cleaned < 2 \<or> digitsOnly cleaned then None else Some cleaned)
        else if field = ''dob'' then
          (if \<not> hasDigit cleaned \<or> length cleaned < 6 then None else Some cleaned)
        else if field = ''patientId'' then
          (let cleaned = filter isWord cleaned in
           if length cleaned < 3 then None else Some cleaned)
        else Some cleaned)"

text \<open>The metadata object, read at its string-valued fields: a field name gives the
  value, \<open>None\<close> for null. \<open>fieldMappings\<close> is the table of the constructor; the
  entries of a mapping are visited in order.\<close>

type_synonym metadata = "string \<Rightarrow> string option"

definition fieldMappings :: "(string \<times> string list) list" where
  "fieldMappings =
     [(''name'', [''patient name'', ''name'', ''patient'', ''full name'', ''patient full name'']),
      (''dob'', [''dob'', ''date of birth'', ''birth date'', ''birthdate'', ''patient dob'']),
      (''patientId'', [''patient id'', ''id'', ''patient #'', ''patient number'', ''mrn'',
         ''medical record number'', ''account'', ''accession'', ''medical record no'',
         ''patient identifier'', ''chart number''])]"

fun probeField :: "(string \<rightharpoonup> string) \<Rightarrow> string \<Rightarrow> string list \<Rightarrow> metadata \<Rightarrow> metadata" where
  "probeField kv field [] md = md"
| "probeField kv field (key # keys) md =
     (if truthy (kv key) \<and> \<not> truthy (md field)
      then md(field := cleanValue (the (kv key)) field)
      else probeField kv field keys md)"

fun extractFromKeyValuePairs ::
  "(string \<times> string list) list \<Rightarrow> (string \<rightharpoonup> string) \<Rightarrow> metadata \<Rightarrow> metadata" where
  "extractFromKeyValuePairs [] kv md = md"
| "extractFromKeyValuePairs ((field, possibleKeys) # rest) kv md =
     extractFromKeyValuePairs rest kv (probeField kv field possibleKeys md)"

definition emptyMetadata :: metadata where
  "emptyMetadata = (\<lambda>field. None)"

section \<open>Properties of states and values\<close>

text \<open>The pages a state holds, in order: those of the reports, then the open group.\<close>

definition content :: "splitState \<Rightarrow> page list" where
  "content s = concat (map pages (reports s)) @ current s"

definition nonemptyReports :: "report list \<Rightarrow> bool" where
  "nonemptyReports rs = list_all (\<lambda>r. pages r \<noteq> []) rs"

definition boundedReport :: "int \<Rightarrow> report \<Rightarrow> bool" where
  "boundedReport maxPagesPerPatient r =
     (1 \<le> pageCount r \<and> int (pageCount r) \<le> maxPagesPerPatient \<and> pageCount r = length (pages r))"

text \<open>Pages on which the extraction does not throw.\<close>

definition goodPages :: "page list \<Rightarrow> bool" where
  "goodPages ps = list_all (\<lambda>p. extractPatientInfo p \<noteq> Inl TypeError) ps"

text \<open>What \<^verbatim>\<open>_cleanPatientValue\<close> leaves in a field: null, or a string of word
  characters, white space and hyphens with no white space at either end.\<close>

definition cleanedField :: "string option \<Rightarrow> bool" where
  "cleanedField v = (case v of None \<Rightarrow> True | Some s \<Rightarrow> list_all keepChar s \<and> trim s = s)"

definition cleanedInfo :: "patientInfo \<Rightarrow> bool" where
  "cleanedInfo info =
     (cleanedField (name info) \<and> cleanedField (patientId info) \<and> cleanedField (dob info))"

section \<open>Example pages\<close>

definition pageA :: page where
  "pageA = Some \<lparr>index = 0, keyValuePairs = Some [''patient id'' \<mapsto> ''A100'', ''name'' \<mapsto> ''Ann Lee''],
                  tables = Some []\<rparr>"

definition pageA' :: page where
  "pageA' = Some \<lparr>index = 1, keyValuePairs = Some [''patient id'' \<mapsto> ''A100''], tables = Some []\<rparr>"

definition pageB :: page where
  "pageB = Some \<lparr>index = 2, keyValuePairs = Some [''patient id'' \<mapsto> ''B200'', ''name'' \<mapsto> ''Ann Lee''],
                  tables = Some []\<rparr>"

definition pageBlank :: page where
  "pageBlank = Some \<lparr>index = 3, keyValuePairs = Some Map.empty, tables = Some []\<rparr>"

definition pageDobOnly :: pageData where
  "pageDobOnly = \<lparr>index = 4, keyValuePairs = Some [''dob'' \<mapsto> ''01/02/1990''], tables = Some []\<rparr>"

definition pageNumericName :: page where
  "pageNumericName =
     Some \<lparr>index = 5, keyValuePairs = Some [''name'' \<mapsto> ''12345'', ''patient id'' \<mapsto> ''###''],
           tables = Some []\<rparr>"

definition pageTable :: page where
  "pageTable =
     Some \<lparr>index = 6, keyValuePairs = None,
           tables = Some [Some \<lparr>rows = RowArray [Some [Str ''Patient Name'', Str ''Ann Lee''],
                                                   Some [Str ''MRN: A100'', Hole]]\<rparr>]\<rparr>"

definition kvShortName :: "string \<rightharpoonup> string" where
  "kvShortName = [''patient name'' \<mapsto> ''7'', ''name'' \<mapsto> ''John Doe'']"

definition pageEmptyId :: page where
  "pageEmptyId =
     Some \<lparr>index = 7, keyValuePairs = Some [''patient id'' \<mapsto> ''#'', ''name'' \<mapsto> ''Ann Lee''],
           tables = Some []\<rparr>"

text \<open>A page without key-value pairs whose one table row is the label \<^verbatim>\<open>Name\<close>
  followed by the number 42; a page whose only table is null; a page whose table has the
  number 7 as rows.\<close>

definition pageNumberCell :: page where
  "pageNumberCell =
     Some \<lparr>index = 0, keyValuePairs = Some Map.empty,
           tables = Some [Some \<lparr>rows = RowArray [Some [Str ''Name'', NonString]]\<rparr>]\<rparr>"

definition pageNullTable :: page where
  "pageNullTable = Some \<lparr>index = 0, keyValuePairs = Some Map.empty, tables = Some [None]\<rparr>"

definition pageRowsNotArray :: page where
  "pageRowsNotArray =
     Some \<lparr>index = 0, keyValuePairs = Some Map.empty, tables = Some [Some \<lparr>rows = RowsNotArray\<rparr>]\<rparr>"

definition infoA :: patientInfo where
  "infoA = \<lparr>name = Some ''Ann Lee'', patientId = Some ''A100'', dob = None\<rparr>"

definition infoA' :: patientInfo where
  "infoA' = \<lparr>name = None, patientId = Some ''A100'', dob = None\<rparr>"

definition infoB :: patientInfo where
  "infoB = \<lparr>name = Some ''Ann Lee'', patientId = Some ''B200'', dob = None\<rparr>"

definition infoEmptyId :: patientInfo where
  "infoEmptyId = \<lparr>name = Some ''Ann Lee'', patientId = Some [], dob = None\<rparr>"

text \<open>The state of a scan with cap 2 after \<open>pageA\<close>.\<close>

definition stateA :: splitState where
  "stateA = \<lparr>reports = [], current = [pageA], currentPatientInfo = Some infoA\<rparr>"

text \<open>The report of the two pages \<open>pageA\<close> and \<open>pageA'\<close> as the first report.\<close>

definition reportAA :: report where
  "reportAA = \<lparr>reportIndex = 0, pages = [pageA, pageA'], pageCount = 2,
                 firstPageIndex = 0, lastPageIndex = 1, hasPatientData = True\<rparr>"

section \<open>What the extraction can throw\<close>

lemma tableValue_error: "tableValue cell nxt = Inl e \<Longrightarrow> e = TypeError"
  by (simp add: tableValue_def Let_def split: cell.splits if_splits)

lemma tableField_error: "tableField keys cell nxt cur = Inl e \<Longrightarrow> e = TypeError"
  by (auto simp: tableField_def split: if_splits sum.splits option.splits dest: tableValue_error)

lemma cellStep_error: "cellStep cell nxt info = Inl e \<Longrightarrow> e = TypeError"
  by (auto simp: cellStep_def split: cell.splits if_splits sum.splits dest: tableField_error)

lemma rowLoop_error: "rowLoop cells info = Inl e \<Longrightarrow> e = TypeError"
  by (induction cells arbitrary: info) (auto split: sum.splits dest: cellStep_error)

lemma rowsLoop_error: "rowsLoop rs info = Inl e \<Longrightarrow> e = TypeError"
  by (induction rs arbitrary: info) (auto split: option.splits sum.splits dest: rowLoop_error)

lemma extractFromTables_error: "extractFromTables ts info = Inl e \<Longrightarrow> e = TypeError"
  by (induction ts arbitrary: info)
    (auto split: option.splits sum.splits rowsValue.splits dest: rowsLoop_error)

lemma resolveFields_error: "resolveFields pd = Inl e \<Longrightarrow> e = TypeError"
  by (auto simp: resolveFields_def Let_def split: option.splits if_splits
      dest: extractFromTables_error)

lemma extractPatientInfo_error: "extractPatientInfo p = Inl e \<Longrightarrow> e = TypeError"
  by (auto simp: extractPatientInfo_def split: option.splits sum.splits if_splits
      dest: resolveFields_error)

lemma extractPatientInfo_cases:
  "extractPatientInfo p = Inl TypeError \<or> (\<exists>c. extractPatientInfo p = Inr c)"
  by (cases "extractPatientInfo p") (auto dest: extractPatientInfo_error)

lemma goodPages_Nil: "goodPages []"
  by (simp add: goodPages_def)

lemma goodPages_Cons: "goodPages (p # ps) \<longleftrightarrow> extractPatientInfo p \<noteq> Inl TypeError \<and> goodPages ps"
  by (simp add: goodPages_def)

lemma goodPages_append: "goodPages (xs @ ys) \<longleftrightarrow> goodPages xs \<and> goodPages ys"
  by (simp add: goodPages_def)

lemma goodPages_iff: "goodPages ps \<longleftrightarrow> (\<forall>p \<in> set ps. extractPatientInfo p \<noteq> Inl TypeError)"
  by (simp add: goodPages_def list_all_iff)

section \<open>Reports\<close>

lemma somePatientData_good: "goodPages ps \<Longrightarrow> \<exists>h. somePatientData ps = Inr h"
proof (induction ps)
  case Nil
  show ?case by auto
next
  case (Cons p ps)
  from Cons.prems have "extractPatientInfo p \<noteq> Inl TypeError" "goodPages ps"
    by (simp_all add: goodPages_Cons)
  with extractPatientInfo_cases[of p] Cons.IH show ?case
    by (auto split: option.splits)
qed

lemma somePatientData_error: "somePatientData ps = Inl e \<Longrightarrow> e = TypeError"
  by (induction ps) (auto split: sum.splits option.splits dest: extractPatientInfo_error)

lemma somePatientData_none:
  "\<forall>p \<in> set ps. extractPatientInfo p = Inr None \<Longrightarrow> somePatientData ps = Inr False"
  by (induction ps) simp_all

lemma finalizeReport_Inr:
  assumes "finalizeReport ps ri = Inr r"
  shows "pages r = ps" and "pageCount r = length ps" and "reportIndex r = ri"
  using assms by (auto simp: finalizeReport_def split: sum.splits)

lemma finalizeReport_good: "goodPages ps \<Longrightarrow> \<exists>r. finalizeReport ps ri = Inr r"
  using somePatientData_good[of ps] by (auto simp: finalizeReport_def)

lemma finalizeReport_error: "finalizeReport ps ri = Inl e \<Longrightarrow> e = TypeError"
  by (auto simp: finalizeReport_def split: sum.splits dest: somePatientData_error)

lemma finalizeReport_none:
  assumes "\<forall>p \<in> set ps. extractPatientInfo p = Inr None"
  shows "\<exists>r. finalizeReport ps ri = Inr r \<and> \<not> hasPatientData r"
  using somePatientData_none[OF assms] by (simp add: finalizeReport_def)

section \<open>The scan keeps every page, in order\<close>

lemma addPage_Inr:
  assumes "addPage s pg = Inr s1"
  shows "content s1 = content s @ [pg]" and "current s1 \<noteq> []"
    and "extractPatientInfo pg \<noteq> Inl TypeError"
    and "nonemptyReports (reports s) \<Longrightarrow> nonemptyReports (reports s1)"
  using assms
  by (auto simp: addPage_def Let_def content_def nonemptyReports_def
      split: sum.splits if_splits dest: finalizeReport_Inr(1))

lemma safetyCheck_Inr:
  assumes "safetyCheck m s = Inr s'"
  shows "content s' = content s"
    and "nonemptyReports (reports s) \<Longrightarrow> current s \<noteq> [] \<Longrightarrow> nonemptyReports (reports s')"
  using assms
  by (auto simp: safetyCheck_def content_def nonemptyReports_def
      split: sum.splits if_splits dest: finalizeReport_Inr(1))

lemma pageStep_Inr:
  assumes "pageStep m s pg = Inr s'"
  shows "content s' = content s @ [pg]"
    and "extractPatientInfo pg \<noteq> Inl TypeError"
    and "nonemptyReports (reports s) \<Longrightarrow> nonemptyReports (reports s')"
proof -
  from assms obtain s1 where a: "addPage s pg = Inr s1" and c: "safetyCheck m s1 = Inr s'"
    by (auto simp: pageStep_def split: sum.splits)
  from addPage_Inr(1)[OF a] safetyCheck_Inr(1)[OF c] show "content s' = content s @ [pg]" by simp
  from addPage_Inr(3)[OF a] show "extractPatientInfo pg \<noteq> Inl TypeError" .
  show "nonemptyReports (reports s')" if "nonemptyReports (reports s)"
    using safetyCheck_Inr(2)[OF c addPage_Inr(4)[OF a that] addPage_Inr(2)[OF a]] .
qed

lemma scanPages_Inr_content:
  "scanPages m s ps = Inr s' \<Longrightarrow> content s' = content s @ ps"
proof (induction ps arbitrary: s)
  case Nil
  then show ?case by simp
next
  case (Cons pg ps)
  then obtain s1 where st: "pageStep m s pg = Inr s1" and sc: "scanPages m s1 ps = Inr s'"
    by (auto split: sum.splits)
  from Cons.IH[OF sc] pageStep_Inr(1)[OF st] show ?case by simp
qed

lemma scanPages_Inr_good: "scanPages m s ps = Inr s' \<Longrightarrow> goodPages ps"
proof (induction ps arbitrary: s)
  case Nil
  show ?case by (rule goodPages_Nil)
next
  case (Cons pg ps)
  then obtain s1 where st: "pageStep m s pg = Inr s1" and sc: "scanPages m s1 ps = Inr s'"
    by (auto split: sum.splits)
  from Cons.IH[OF sc] pageStep_Inr(2)[OF st] show ?case by (simp add: goodPages_Cons)
qed

lemma scanPages_Inr_nonempty:
  "scanPages m s ps = Inr s' \<Longrightarrow> nonemptyReports (reports s) \<Longrightarrow> nonemptyReports (reports s')"
proof (induction ps arbitrary: s)
  case Nil
  then show ?case by simp
next
  case (Cons pg ps)
  from Cons.prems(1) obtain s1
    where st: "pageStep m s pg = Inr s1" and sc: "scanPages m s1 ps = Inr s'"
    by (auto split: sum.splits)
  from Cons.IH[OF sc pageStep_Inr(3)[OF st Cons.prems(2)]] show ?case .
qed

lemma flushLast_Inr:
  assumes "flushLast s = Inr rs"
  shows "concat (map pages rs) = content s"
    and "nonemptyReports (reports s) \<Longrightarrow> nonemptyReports rs"
  using assms
  by (auto simp: flushLast_def content_def nonemptyReports_def
      split: sum.splits if_splits dest: finalizeReport_Inr(1))

lemma content_initialState: "content initialState = []"
  by (simp add: content_def initialState_def)

lemma nonempty_initialState: "nonemptyReports (reports initialState)"
  by (simp add: nonemptyReports_def initialState_def)

lemma validateReports_Inr:
  assumes "validateReports rs = Inr rs'" and "nonemptyReports rs"
  shows "rs' = rs" and "rs \<noteq> []"
proof -
  from assms(2) have f: "filter (\<lambda>r. pages r \<noteq> []) rs = rs"
    by (simp add: nonemptyReports_def list_all_iff)
  from assms(1) show "rs' = rs" "rs \<noteq> []"
    by (auto simp: validateReports_def Let_def f split: if_splits sum.splits)
qed

text \<open>What the call returns on a non-empty array are the reports of the scan, unfiltered,
  and then no page has thrown.\<close>

lemma split_Inr:
  assumes "splitIntoPatientReports m (Some ps) = Inr rs"
  shows "ps \<noteq> []"
    and "\<exists>s. scanPages m initialState ps = Inr s \<and> flushLast s = Inr rs"
    and "concat (map pages rs) = ps" and "rs \<noteq> []" and "goodPages ps"
proof -
  from assms show ne: "ps \<noteq> []" by (auto simp: splitIntoPatientReports_def split: if_splits)
  with assms obtain s rs0 where sc: "scanPages m initialState ps = Inr s"
    and fl: "flushLast s = Inr rs0" and va: "validateReports rs0 = Inr rs"
    by (auto simp: splitIntoPatientReports_def split: sum.splits)
  have "nonemptyReports (reports s)"
    by (rule scanPages_Inr_nonempty[OF sc nonempty_initialState])
  then have "nonemptyReports rs0" by (rule flushLast_Inr(2)[OF fl])
  from validateReports_Inr[OF va this] have eq: "rs = rs0" and "rs0 \<noteq> []" by simp_all
  then show "rs \<noteq> []" by simp
  from sc fl eq show "\<exists>s. scanPages m initialState ps = Inr s \<and> flushLast s = Inr rs" by simp
  from flushLast_Inr(1)[OF fl] scanPages_Inr_content[OF sc] eq
  show "concat (map pages rs) = ps" by (simp add: content_initialState)
  from scanPages_Inr_good[OF sc] show "goodPages ps" .
qed

section \<open>The call returns when no page throws\<close>

lemma addPage_good:
  assumes "extractPatientInfo pg \<noteq> Inl TypeError" and "goodPages (current s)"
  shows "\<exists>s1. addPage s pg = Inr s1"
proof -
  from assms(1) extractPatientInfo_cases[of pg] obtain c where c: "extractPatientInfo pg = Inr c"
    by blast
  from finalizeReport_good[OF assms(2), of "length (reports s)"] obtain r
    where "finalizeReport (current s) (length (reports s)) = Inr r" ..
  with c show ?thesis by (simp add: addPage_def Let_def)
qed

lemma addPage_raises: "extractPatientInfo pg = Inl TypeError \<Longrightarrow> addPage s pg = Inl TypeError"
  by (simp add: addPage_def)

lemma safetyCheck_good: "goodPages (current s) \<Longrightarrow> \<exists>s'. safetyCheck m s = Inr s'"
  using finalizeReport_good[of "current s" "length (reports s)"]
  by (auto simp: safetyCheck_def)

lemma goodPages_current: "goodPages (content s) \<Longrightarrow> goodPages (current s)"
  by (simp add: content_def goodPages_append)

lemma pageStep_good:
  assumes "extractPatientInfo pg \<noteq> Inl TypeError" and "goodPages (content s)"
  shows "\<exists>s'. pageStep m s pg = Inr s' \<and> goodPages (content s')"
proof -
  from addPage_good[OF assms(1) goodPages_current[OF assms(2)]] obtain s1
    where a: "addPage s pg = Inr s1" ..
  from addPage_Inr(1)[OF a] assms have g1: "goodPages (content s1)"
    by (simp add: goodPages_append goodPages_Cons goodPages_Nil)
  from safetyCheck_good[OF goodPages_current[OF g1], of m] obtain s'
    where c: "safetyCheck m s1 = Inr s'" ..
  from safetyCheck_Inr(1)[OF c] g1 have "goodPages (content s')" by simp
  with a c show ?thesis by (simp add: pageStep_def)
qed

lemma pageStep_raises:
  "extractPatientInfo pg = Inl TypeError \<Longrightarrow> pageStep m s pg = Inl TypeError"
  by (simp add: pageStep_def addPage_raises)

lemma scanPages_good:
  assumes "goodPages ps" and "goodPages (content s)"
  shows "\<exists>s'. scanPages m s ps = Inr s' \<and> goodPages (content s')"
  using assms
proof (induction ps arbitrary: s)
  case Nil
  then show ?case by simp
next
  case (Cons pg ps)
  from Cons.prems(1) have g: "extractPatientInfo pg \<noteq> Inl TypeError" "goodPages ps"
    by (simp_all add: goodPages_Cons)
  from pageStep_good[OF g(1) Cons.prems(2), of m] obtain s1
    where st: "pageStep m s pg = Inr s1" and g1: "goodPages (content s1)" by blast
  from Cons.IH[OF g(2) g1] st show ?case by simp
qed

lemma scanPages_raises:
  assumes "\<not> goodPages ps" and "goodPages (content s)"
  shows "scanPages m s ps = Inl TypeError"
  using assms
proof (induction ps arbitrary: s)
  case Nil
  then show ?case by (simp add: goodPages_Nil)
next
  case (Cons pg ps)
  show ?case
  proof (cases "extractPatientInfo pg = Inl TypeError")
    case True
    then show ?thesis by (simp add: pageStep_raises)
  next
    case False
    with Cons.prems(1) have b: "\<not> goodPages ps" by (simp add: goodPages_Cons)
    from pageStep_good[OF False Cons.prems(2), of m] obtain s1
      where st: "pageStep m s pg = Inr s1" and g1: "goodPages (content s1)" by blast
    from Cons.IH[OF b g1] st show ?thesis by simp
  qed
qed

lemma flushLast_good: "goodPages (content s) \<Longrightarrow> \<exists>rs. flushLast s = Inr rs"
  using finalizeReport_good[OF goodPages_current, of s "length (reports s)"]
  by (auto simp: flushLast_def)

lemma logSummary_good: "goodPages (concat (map pages rs)) \<Longrightarrow> logSummary rs = Inr ()"
proof (induction rs)
  case Nil
  show ?case by simp
next
  case (Cons r rs)
  from Cons.prems have g: "goodPages (pages r)" "goodPages (concat (map pages rs))"
    by (simp_all add: goodPages_append)
  have "extractPatientInfo (case pages r of [] \<Rightarrow> None | firstPage # rest \<Rightarrow> firstPage) \<noteq> Inl TypeError"
    using g(1) by (cases "pages r") (simp_all add: goodPages_Cons extractPatientInfo_def)
  with extractPatientInfo_cases obtain c
    where "extractPatientInfo (case pages r of [] \<Rightarrow> None | firstPage # rest \<Rightarrow> firstPage) = Inr c"
    by blast
  with Cons.IH[OF g(2)] show ?case by simp
qed

lemma validateReports_good:
  assumes "goodPages (concat (map pages rs))" and "nonemptyReports rs" and "rs \<noteq> []"
  shows "validateReports rs = Inr rs"
proof -
  from assms(2) have f: "filter (\<lambda>r. pages r \<noteq> []) rs = rs"
    by (simp add: nonemptyReports_def list_all_iff)
  with assms(3) logSummary_good[OF assms(1)] show ?thesis
    by (simp add: validateReports_def Let_def)
qed

lemma split_good:
  assumes "ps \<noteq> []" and "goodPages ps"
  shows "\<exists>rs. splitIntoPatientReports m (Some ps) = Inr rs"
proof -
  have g0: "goodPages (content initialState)"
    by (simp add: content_initialState goodPages_Nil)
  from scanPages_good[OF assms(2) g0, of m] obtain s
    where sc: "scanPages m initialState ps = Inr s" and g: "goodPages (content s)" by blast
  from flushLast_good[OF g] obtain rs where fl: "flushLast s = Inr rs" ..
  from flushLast_Inr(1)[OF fl] scanPages_Inr_content[OF sc]
  have c: "concat (map pages rs) = ps" by (simp add: content_initialState)
  with g flushLast_Inr(1)[OF fl] have "goodPages (concat (map pages rs))" by simp
  moreover have "nonemptyReports rs"
    by (rule flushLast_Inr(2)[OF fl scanPages_Inr_nonempty[OF sc nonempty_initialState]])
  moreover from c assms(1) have "rs \<noteq> []" by auto
  ultimately have "validateReports rs = Inr rs" by (rule validateReports_good)
  with assms(1) sc fl show ?thesis by (simp add: splitIntoPatientReports_def)
qed

lemma split_raises:
  assumes "ps \<noteq> []" and "\<not> goodPages ps"
  shows "splitIntoPatientReports m (Some ps) = Inl TypeError"
proof -
  have "goodPages (content initialState)"
    by (simp add: content_initialState goodPages_Nil)
  from scanPages_raises[OF assms(2) this, of m] assms(1) show ?thesis
    by (simp add: splitIntoPatientReports_def)
qed

text \<open>
  Claim C1 (partition property). For every non-empty array of pages and every
  \<open>maxPagesPerPatient\<close>, the pages of the reports that \<open>splitIntoPatientReports\<close>
  returns, concatenated in the order of the reports, are the input array: no page is left
  out, repeated or moved. The call returns whenever the extraction throws on no page.
\<close>

theorem partition_property:
  assumes "ps \<noteq> []"
  shows "(\<forall>rs. splitIntoPatientReports m (Some ps) = Inr rs \<longrightarrow> concat (map pages rs) = ps)
       \<and> ((\<forall>p \<in> set ps. extractPatientInfo p \<noteq> Inl TypeError) \<longrightarrow>
            (\<exists>rs. splitIntoPatientReports m (Some ps) = Inr rs \<and> concat (map pages rs) = ps))"
proof -
  have a: "\<forall>rs. splitIntoPatientReports m (Some ps) = Inr rs \<longrightarrow> concat (map pages rs) = ps"
    using split_Inr(3) by blast
  have "\<exists>rs. splitIntoPatientReports m (Some ps) = Inr rs \<and> concat (map pages rs) = ps"
    if "\<forall>p \<in> set ps. extractPatientInfo p \<noteq> Inl TypeError"
  proof -
    from that have "goodPages ps" by (simp add: goodPages_iff)
    from split_good[OF assms this, of m] obtain rs
      where "splitIntoPatientReports m (Some ps) = Inr rs" ..
    with a show ?thesis by blast
  qed
  with a show ?thesis by blast
qed

lemma extract_pageA: "extractPatientInfo pageA = Inr (Some infoA)"
  by code_simp

lemma extract_pageA': "extractPatientInfo pageA' = Inr (Some infoA')"
  by code_simp

lemma extract_pageB: "extractPatientInfo pageB = Inr (Some infoB)"
  by code_simp

lemma extract_pageBlank: "extractPatientInfo pageBlank = Inr None"
  by code_simp

theorem partition_property_witness:
  "[pageA, pageBlank, pageB] \<noteq> []
   \<and> extractPatientInfo pageA \<noteq> Inl TypeError
   \<and> extractPatientInfo pageBlank \<noteq> Inl TypeError
   \<and> extractPatientInfo pageB \<noteq> Inl TypeError
   \<and> (\<exists>rs. splitIntoPatientReports 10 (Some [pageA, pageBlank, pageB]) = Inr rs \<and>
         concat (map pages rs) = [pageA, pageBlank, pageB])"
  using partition_property[of "[pageA, pageBlank, pageB]" 10]
  by (simp add: extract_pageA extract_pageBlank extract_pageB)

section \<open>The size of a group\<close>

lemma boundedReport_finalizeReport:
  assumes "finalizeReport ps ri = Inr r" and "ps \<noteq> []" and "int (length ps) \<le> m"
  shows "boundedReport m r"
proof -
  from finalizeReport_Inr[OF assms(1)] have "pages r = ps" "pageCount r = length ps" by simp_all
  with assms(2,3) show ?thesis by (cases ps) (simp_all add: boundedReport_def)
qed

lemma bounded_addPage:
  assumes "addPage s pg = Inr s1"
    and "list_all (boundedReport m) (reports s)" and "int (length (current s)) < m"
  shows "list_all (boundedReport m) (reports s1)" and "int (length (current s1)) \<le> m"
proof -
  have fin: "boundedReport m r"
    if "finalizeReport (current s) (length (reports s)) = Inr r" "current s \<noteq> []" for r
    using boundedReport_finalizeReport[OF that] assms(3) by simp
  from assms fin show "list_all (boundedReport m) (reports s1)"
    by (auto simp: addPage_def Let_def split: sum.splits if_splits)
  from assms show "int (length (current s1)) \<le> m"
    by (auto simp: addPage_def Let_def split: sum.splits if_splits)
qed

lemma bounded_safetyCheck:
  assumes "safetyCheck m s = Inr s'"
    and "list_all (boundedReport m) (reports s)" and "int (length (current s)) \<le> m"
    and "current s \<noteq> []" and "0 < m"
  shows "list_all (boundedReport m) (reports s')" and "int (length (current s')) < m"
proof -
  have fin: "boundedReport m r"
    if "finalizeReport (current s) (length (reports s)) = Inr r" for r
    using boundedReport_finalizeReport[OF that assms(4,3)] .
  from assms fin show "list_all (boundedReport m) (reports s')"
    by (auto simp: safetyCheck_def split: sum.splits if_splits)
  from assms show "int (length (current s')) < m"
    by (auto simp: safetyCheck_def split: sum.splits if_splits)
qed

lemma bounded_pageStep:
  assumes "pageStep m s pg = Inr s'"
    and "list_all (boundedReport m) (reports s)" and "int (length (current s)) < m" and "0 < m"
  shows "list_all (boundedReport m) (reports s')" and "int (length (current s')) < m"
proof -
  from assms(1) obtain s1 where a: "addPage s pg = Inr s1" and c: "safetyCheck m s1 = Inr s'"
    by (auto simp: pageStep_def split: sum.splits)
  note b = bounded_addPage[OF a assms(2,3)]
  from bounded_safetyCheck[OF c b addPage_Inr(2)[OF a] assms(4)]
  show "list_all (boundedReport m) (reports s')" and "int (length (current s')) < m" .
qed

text \<open>At the head of the loop the open group is below the cap, and every report made so
  far is within it.\<close>

lemma bounded_scanPages:
  assumes "scanPages m s ps = Inr s'"
    and "list_all (boundedReport m) (reports s)" and "int (length (current s)) < m" and "0 < m"
  shows "list_all (boundedReport m) (reports s') \<and> int (length (current s')) < m"
  using assms
proof (induction ps arbitrary: s)
  case Nil
  then show ?case by simp
next
  case (Cons pg ps)
  from Cons.prems(1) obtain s1
    where st: "pageStep m s pg = Inr s1" and sc: "scanPages m s1 ps = Inr s'"
    by (auto split: sum.splits)
  from Cons.IH[OF sc bounded_pageStep[OF st Cons.prems(2,3,4)] Cons.prems(4)] show ?case .
qed

lemma bounded_flushLast:
  assumes "flushLast s = Inr rs"
    and "list_all (boundedReport m) (reports s)" and "int (length (current s)) < m"
  shows "list_all (boundedReport m) rs"
proof -
  have fin: "boundedReport m r"
    if "finalizeReport (current s) (length (reports s)) = Inr r" "current s \<noteq> []" for r
    using boundedReport_finalizeReport[OF that] assms(3) by simp
  from assms fin show ?thesis
    by (auto simp: flushLast_def split: sum.splits if_splits)
qed

lemma bounded_split:
  assumes "splitIntoPatientReports m (Some ps) = Inr rs" and "0 < m"
  shows "\<forall>r \<in> set rs. 1 \<le> pageCount r \<and> int (pageCount r) \<le> m \<and> pageCount r = length (pages r)"
proof -
  from split_Inr(2)[OF assms(1)] obtain s
    where sc: "scanPages m initialState ps = Inr s" and fl: "flushLast s = Inr rs" by blast
  have "list_all (boundedReport m) (reports s) \<and> int (length (current s)) < m"
    using assms(2) by (intro bounded_scanPages[OF sc]) (simp_all add: initialState_def)
  then have "list_all (boundedReport m) rs"
    using bounded_flushLast[OF fl] by blast
  then have "\<forall>r \<in> set rs. boundedReport m r"
    by (simp only: list_all_iff)
  then show ?thesis
    by (simp only: boundedReport_def)
qed

text \<open>
  Claim C2 (bounded group size). For every non-empty array of pages and every positive
  \<open>maxPagesPerPatient\<close>, every report that the call returns has
  \<open>1 \<le> pageCount \<le> maxPagesPerPatient\<close> with \<open>pageCount\<close> the length of its
  \<open>pages\<close>. The call returns whenever the extraction throws on no page.
\<close>

theorem bounded_group_size:
  assumes "ps \<noteq> []" and "0 < m"
  shows "(\<forall>rs. splitIntoPatientReports m (Some ps) = Inr rs \<longrightarrow>
            (\<forall>r \<in> set rs. 1 \<le> pageCount r \<and> int (pageCount r) \<le> m \<and>
                           pageCount r = length (pages r)))
       \<and> ((\<forall>p \<in> set ps. extractPatientInfo p \<noteq> Inl TypeError) \<longrightarrow>
            (\<exists>rs. splitIntoPatientReports m (Some ps) = Inr rs \<and>
               (\<forall>r \<in> set rs. 1 \<le> pageCount r \<and> int (pageCount r) \<le> m \<and>
                              pageCount r = length (pages r))))"
proof -
  have a: "\<forall>rs. splitIntoPatientReports m (Some ps) = Inr rs \<longrightarrow>
            (\<forall>r \<in> set rs. 1 \<le> pageCount r \<and> int (pageCount r) \<le> m \<and>
                           pageCount r = length (pages r))"
    using bounded_split[OF _ assms(2)] by blast
  have "\<exists>rs. splitIntoPatientReports m (Some ps) = Inr rs \<and>
               (\<forall>r \<in> set rs. 1 \<le> pageCount r \<and> int (pageCount r) \<le> m \<and>
                              pageCount r = length (pages r))"
    if "\<forall>p \<in> set ps. extractPatientInfo p \<noteq> Inl TypeError"
  proof -
    from that have "goodPages ps" by (simp add: goodPages_iff)
    from split_good[OF assms(1) this, of m] obtain rs
      where "splitIntoPatientReports m (Some ps) = Inr rs" ..
    with a show ?thesis by blast
  qed
  with a show ?thesis by blast
qed

theorem bounded_group_size_witness:
  "[pageA, pageA', pageA', pageB] \<noteq> [] \<and> (0::int) < 2
   \<and> extractPatientInfo pageA \<noteq> Inl TypeError
   \<and> extractPatientInfo pageA' \<noteq> Inl TypeError
   \<and> extractPatientInfo pageB \<noteq> Inl TypeError
   \<and> (\<exists>rs. splitIntoPatientReports 2 (Some [pageA, pageA', pageA', pageB]) = Inr rs \<and>
      (\<forall>r \<in> set rs. 1 \<le> pageCount r \<and> int (pageCount r) \<le> 2 \<and> pageCount r = length (pages r)))"
  using bounded_group_size[of "[pageA, pageA', pageA', pageB]" 2]
  by (simp add: extract_pageA extract_pageA' extract_pageB)

section \<open>The errors of the call\<close>

text \<open>The call ends in the error of line 14 exactly on a null or empty array, in a
  TypeError exactly on a non-empty array with a page on which the extraction throws, and
  never in the error of \<open>_validateReports\<close>.\<close>

lemma split_error_cases:
  "splitIntoPatientReports m inp = Inl e \<longleftrightarrow>
     (e = NoPageData \<and> (inp = None \<or> inp = Some []))
     \<or> (e = TypeError \<and> (\<exists>ps. inp = Some ps \<and> ps \<noteq> [] \<and> \<not> goodPages ps))"
proof (cases inp)
  case None
  then show ?thesis by (auto simp: splitIntoPatientReports_def)
next
  case (Some ps)
  show ?thesis
  proof (cases "ps = []")
    case True
    with Some show ?thesis by (auto simp: splitIntoPatientReports_def)
  next
    case False
    show ?thesis
    proof (cases "goodPages ps")
      case True
      from split_good[OF False True, of m] Some False True show ?thesis by auto
    next
      case bad: False
      from split_raises[OF False bad, of m] Some False bad show ?thesis by auto
    qed
  qed
qed

text \<open>
  Claim C6 says that the call raises exactly on a null or empty array and returns at least
  one report on every non-empty one. The code does not do so: on an array of one page
  whose table row holds the label \<^verbatim>\<open>Name\<close> followed by the number 42, line 172 calls
  \<^verbatim>\<open>trim\<close> on the number and the call ends in a TypeError; so it does on a page with a
  null table and on a page whose table has rows that are not an array. The label cell is
  guarded against values that are not strings (line 165), the value cell is not.
\<close>

theorem split_raises_on_non_string_cell:
  "Some [pageNumberCell] \<noteq> None \<and> Some [pageNumberCell] \<noteq> Some []
   \<and> extractPatientInfo pageNumberCell = Inl TypeError
   \<and> splitIntoPatientReports 10 (Some [pageNumberCell]) = Inl TypeError
   \<and> splitIntoPatientReports 10 (Some [pageA, pageNumberCell]) = Inl TypeError
   \<and> splitIntoPatientReports 10 (Some [pageNullTable]) = Inl TypeError
   \<and> splitIntoPatientReports 10 (Some [pageRowsNotArray]) = Inl TypeError"
proof -
  have e: "extractPatientInfo pageNumberCell = Inl TypeError"
    "extractPatientInfo pageNullTable = Inl TypeError"
    "extractPatientInfo pageRowsNotArray = Inl TypeError"
    by code_simp+
  have "\<not> goodPages [pageNumberCell]" "\<not> goodPages [pageA, pageNumberCell]"
    "\<not> goodPages [pageNullTable]" "\<not> goodPages [pageRowsNotArray]"
    by (simp_all add: goodPages_def e)
  then have "splitIntoPatientReports 10 (Some [pageNumberCell]) = Inl TypeError"
    "splitIntoPatientReports 10 (Some [pageA, pageNumberCell]) = Inl TypeError"
    "splitIntoPatientReports 10 (Some [pageNullTable]) = Inl TypeError"
    "splitIntoPatientReports 10 (Some [pageRowsNotArray]) = Inl TypeError"
    by (simp_all add: split_raises)
  with e(1) show ?thesis by simp
qed

section \<open>Leading pages without identity\<close>

lemma isDifferentPatient_None: "isDifferentPatient None c = (c \<noteq> None)"
  by (simp add: isDifferentPatient_def)

lemma scanPages_append:
  "scanPages m s (xs @ ys) =
     (case scanPages m s xs of Inl e \<Rightarrow> Inl e | Inr s1 \<Rightarrow> scanPages m s1 ys)"
  by (induction xs arbitrary: s) (simp_all split: sum.splits)

lemma reports_pageStep: "pageStep m s pg = Inr s' \<Longrightarrow> \<exists>ext. reports s' = reports s @ ext"
  by (auto simp: pageStep_def safetyCheck_def addPage_def Let_def split: sum.splits if_splits)

lemma reports_scanPages: "scanPages m s ps = Inr s' \<Longrightarrow> \<exists>ext. reports s' = reports s @ ext"
proof (induction ps arbitrary: s)
  case Nil
  then show ?case by simp
next
  case (Cons pg ps)
  from Cons.prems obtain s1
    where st: "pageStep m s pg = Inr s1" and sc: "scanPages m s1 ps = Inr s'"
    by (auto split: sum.splits)
  from reports_pageStep[OF st] obtain e1 where e1: "reports s1 = reports s @ e1" ..
  from Cons.IH[OF sc] obtain e2 where "reports s' = reports s1 @ e2" ..
  with e1 show ?case by simp
qed

lemma flushLast_prefix: "flushLast s = Inr rs \<Longrightarrow> \<exists>ext. rs = reports s @ ext"
  by (auto simp: flushLast_def split: sum.splits if_splits)

lemma flushLast_scanPages_prefix:
  assumes "scanPages m s ps = Inr s'" and "flushLast s' = Inr rs"
  shows "\<exists>ext. rs = reports s @ ext"
proof -
  from reports_scanPages[OF assms(1)] obtain e1 where "reports s' = reports s @ e1" ..
  moreover from flushLast_prefix[OF assms(2)] obtain e2 where "rs = reports s' @ e2" ..
  ultimately show ?thesis by simp
qed

text \<open>A step on an open group closes it as it is, extends it, or closes it with the
  page added.\<close>

lemma pageStep_open:
  assumes "pageStep m s pg = Inr s'" and "current s \<noteq> []"
  shows "(\<exists>r ext. reports s' = reports s @ r # ext \<and> pages r = current s)
       \<or> (reports s' = reports s \<and> current s' = current s @ [pg])
       \<or> (\<exists>r. reports s' = reports s @ [r] \<and> pages r = current s @ [pg])"
  using assms
  by (auto simp: pageStep_def safetyCheck_def addPage_def Let_def
      split: sum.splits if_splits dest: finalizeReport_Inr(1))

text \<open>The pages of an open group begin the next report of the result.\<close>

lemma open_group:
  assumes "scanPages m s ps = Inr s'" and "flushLast s' = Inr rs" and "current s \<noteq> []"
  shows "\<exists>r ext rest. rs = reports s @ r # ext \<and> pages r = current s @ rest"
  using assms
proof (induction ps arbitrary: s)
  case Nil
  then show ?case
    by (auto simp: flushLast_def split: sum.splits dest: finalizeReport_Inr(1))
next
  case (Cons pg ps)
  from Cons.prems(1) obtain s1
    where st: "pageStep m s pg = Inr s1" and sc: "scanPages m s1 ps = Inr s'"
    by (auto split: sum.splits)
  from flushLast_scanPages_prefix[OF sc Cons.prems(2)] obtain e
    where e: "rs = reports s1 @ e" ..
  from pageStep_open[OF st Cons.prems(3)]
  consider (split) r ext where "reports s1 = reports s @ r # ext" "pages r = current s"
    | (grow) "reports s1 = reports s" "current s1 = current s @ [pg]"
    | (forced) r where "reports s1 = reports s @ [r]" "pages r = current s @ [pg]"
    by blast
  then show ?case
  proof cases
    case split
    with e have "rs = reports s @ r # (ext @ e)" "pages r = current s @ []" by simp_all
    then show ?thesis by blast
  next
    case grow
    then have "current s1 \<noteq> []" by simp
    from Cons.IH[OF sc Cons.prems(2) this] obtain r ext rest
      where "rs = reports s1 @ r # ext" "pages r = current s1 @ rest" by blast
    with grow have "rs = reports s @ r # ext" "pages r = current s @ (pg # rest)" by simp_all
    then show ?thesis by blast
  next
    case forced
    with e have "rs = reports s @ r # e" by simp
    with forced(2) show ?thesis by blast
  qed
qed

lemma pageStep_blank:
  assumes "extractPatientInfo pg = Inr None" and "int (length c) + 1 < m"
  shows "pageStep m \<lparr>reports = R, current = c, currentPatientInfo = None\<rparr> pg =
         Inr \<lparr>reports = R, current = c @ [pg], currentPatientInfo = None\<rparr>"
  using assms by (simp add: pageStep_def safetyCheck_def addPage_def Let_def isDifferentPatient_None)

lemma scanPages_blank:
  assumes "\<forall>x \<in> set xs. extractPatientInfo x = Inr None" and "int (length c + length xs) < m"
  shows "scanPages m \<lparr>reports = R, current = c, currentPatientInfo = None\<rparr> xs =
         Inr \<lparr>reports = R, current = c @ xs, currentPatientInfo = None\<rparr>"
  using assms
proof (induction xs arbitrary: c)
  case Nil
  then show ?case by simp
next
  case (Cons x xs)
  from Cons.prems have "extractPatientInfo x = Inr None" "int (length c) + 1 < m" by simp_all
  then have "pageStep m \<lparr>reports = R, current = c, currentPatientInfo = None\<rparr> x =
         Inr \<lparr>reports = R, current = c @ [x], currentPatientInfo = None\<rparr>" by (rule pageStep_blank)
  moreover from Cons.prems have "\<forall>y \<in> set xs. extractPatientInfo y = Inr None"
      "int (length (c @ [x]) + length xs) < m" by simp_all
  from Cons.IH[OF this]
  have "scanPages m \<lparr>reports = R, current = c @ [x], currentPatientInfo = None\<rparr> xs =
        Inr \<lparr>reports = R, current = (c @ [x]) @ xs, currentPatientInfo = None\<rparr>" .
  ultimately show ?case by simp
qed

lemma pageStep_first_identity:
  assumes "extractPatientInfo pg = Inr (Some c)" and "xs \<noteq> []" and "1 < m"
    and "finalizeReport xs 0 = Inr r"
  shows "pageStep m \<lparr>reports = [], current = xs, currentPatientInfo = None\<rparr> pg =
         Inr \<lparr>reports = [r], current = [pg], currentPatientInfo = Some c\<rparr>"
  using assms by (simp add: pageStep_def safetyCheck_def addPage_def Let_def isDifferentPatient_None)

text \<open>
  Claim C10 (leading pages without identity). When the first \<open>k\<close> pages \<open>xs\<close> of the
  array, \<open>1 \<le> k < maxPagesPerPatient\<close>, give no candidate and the page \<open>pg\<close> after
  them gives one, the first report that the call returns is exactly \<open>xs\<close>, with report
  index 0, \<open>pageCount = k\<close> and \<open>hasPatientData\<close> false, and the second report
  begins with \<open>pg\<close>. The call returns whenever the extraction throws on no later page.
\<close>

theorem leading_pages_without_identity:
  assumes "xs \<noteq> []" and "int (length xs) < m"
    and "\<forall>x \<in> set xs. extractPatientInfo x = Inr None" and "extractPatientInfo pg = Inr (Some c)"
  shows "(\<forall>rs. splitIntoPatientReports m (Some (xs @ pg # ys)) = Inr rs \<longrightarrow>
            (\<exists>r r' ext rest. rs = r # r' # ext
               \<and> pages r = xs \<and> pageCount r = length xs \<and> reportIndex r = 0
               \<and> \<not> hasPatientData r \<and> pages r' = pg # rest))
       \<and> ((\<forall>y \<in> set ys. extractPatientInfo y \<noteq> Inl TypeError) \<longrightarrow>
            (\<exists>rs. splitIntoPatientReports m (Some (xs @ pg # ys)) = Inr rs))"
proof -
  from assms(1,2) have m: "1 < m" by (cases xs) simp_all
  from finalizeReport_none[OF assms(3), of 0] obtain r
    where r: "finalizeReport xs 0 = Inr r" and h: "\<not> hasPatientData r" by blast
  let ?s1 = "\<lparr>reports = [r], current = [pg], currentPatientInfo = Some c\<rparr>"
  have "scanPages m initialState xs =
        Inr \<lparr>reports = [], current = [] @ xs, currentPatientInfo = None\<rparr>"
    unfolding initialState_def using assms(2,3) by (intro scanPages_blank) simp_all
  then have scan: "scanPages m initialState (xs @ pg # ys) = scanPages m ?s1 ys"
    using pageStep_first_identity[OF assms(4,1) m r] by (simp add: scanPages_append)
  have a: "\<exists>r r' ext rest. rs = r # r' # ext
               \<and> pages r = xs \<and> pageCount r = length xs \<and> reportIndex r = 0
               \<and> \<not> hasPatientData r \<and> pages r' = pg # rest"
    if "splitIntoPatientReports m (Some (xs @ pg # ys)) = Inr rs" for rs
  proof -
    from split_Inr(2)[OF that] scan obtain s
      where sc: "scanPages m ?s1 ys = Inr s" and fl: "flushLast s = Inr rs" by auto
    have "current ?s1 \<noteq> []" by simp
    from open_group[OF sc fl this] obtain r' ext rest
      where "rs = [r] @ r' # ext" "pages r' = [pg] @ rest" by auto
    with finalizeReport_Inr[OF r] h show ?thesis by auto
  qed
  have "\<exists>rs. splitIntoPatientReports m (Some (xs @ pg # ys)) = Inr rs"
    if "\<forall>y \<in> set ys. extractPatientInfo y \<noteq> Inl TypeError"
  proof -
    from assms(3,4) that have "goodPages (xs @ pg # ys)"
      by (auto simp: goodPages_iff)
    then show ?thesis by (intro split_good) simp_all
  qed
  with a show ?thesis by blast
qed

theorem leading_pages_without_identity_witness:
  "[pageBlank, pageBlank] \<noteq> [] \<and> int (length [pageBlank, pageBlank]) < 10
   \<and> extractPatientInfo pageBlank = Inr None
   \<and> extractPatientInfo pageA = Inr (Some infoA)
   \<and> extractPatientInfo pageA' \<noteq> Inl TypeError
   \<and> (\<exists>rs r r' ext rest.
         splitIntoPatientReports 10 (Some ([pageBlank, pageBlank] @ pageA # [pageA'])) = Inr rs
         \<and> rs = r # r' # ext
         \<and> pages r = [pageBlank, pageBlank] \<and> pageCount r = length [pageBlank, pageBlank]
         \<and> reportIndex r = 0 \<and> \<not> hasPatientData r \<and> pages r' = pageA # rest)"
proof -
  have h: "[pageBlank, pageBlank] \<noteq> []" "int (length [pageBlank, pageBlank]) < 10"
    "\<forall>x \<in> set [pageBlank, pageBlank]. extractPatientInfo x = Inr None"
    by (simp_all add: extract_pageBlank)
  have g: "\<forall>y \<in> set [pageA']. extractPatientInfo y \<noteq> Inl TypeError"
    by (simp add: extract_pageA')
  note T = leading_pages_without_identity[OF h extract_pageA, of "[pageA']"]
  from T g obtain rs
    where rs: "splitIntoPatientReports 10 (Some ([pageBlank, pageBlank] @ pageA # [pageA'])) = Inr rs"
    by blast
  with T have "\<exists>r r' ext rest. rs = r # r' # ext
         \<and> pages r = [pageBlank, pageBlank] \<and> pageCount r = length [pageBlank, pageBlank]
         \<and> reportIndex r = 0 \<and> \<not> hasPatientData r \<and> pages r' = pageA # rest"
    by blast
  with rs have "\<exists>rs r r' ext rest.
         splitIntoPatientReports 10 (Some ([pageBlank, pageBlank] @ pageA # [pageA'])) = Inr rs
         \<and> rs = r # r' # ext
         \<and> pages r = [pageBlank, pageBlank] \<and> pageCount r = length [pageBlank, pageBlank]
         \<and> reportIndex r = 0 \<and> \<not> hasPatientData r \<and> pages r' = pageA # rest"
    by blast
  with h(1,2) extract_pageBlank extract_pageA g show ?thesis by simp
qed

section \<open>Forced split\<close>

text \<open>After an emission the next page begins the next report.\<close>

lemma next_group:
  assumes "scanPages m s (q # ys) = Inr s'" and "flushLast s' = Inr rs" and "current s = []"
  shows "\<exists>r ext rest. rs = reports s @ r # ext \<and> pages r = q # rest"
proof -
  from assms(1) obtain sa s1 where a: "addPage s q = Inr sa" and c: "safetyCheck m sa = Inr s1"
    and sc: "scanPages m s1 ys = Inr s'"
    by (auto simp: pageStep_def split: sum.splits)
  from a assms(3) have sa: "reports sa = reports s" "current sa = [q]"
    by (auto simp: addPage_def Let_def split: sum.splits if_splits)
  show ?thesis
  proof (cases "m \<le> int (length (current sa))")
    case True
    with c obtain r where r: "finalizeReport (current sa) (length (reports sa)) = Inr r"
      and s1: "reports s1 = reports sa @ [r]"
      by (auto simp: safetyCheck_def split: sum.splits)
    from flushLast_scanPages_prefix[OF sc assms(2)] obtain e where "rs = reports s1 @ e" ..
    with s1 sa have "rs = reports s @ r # e" by simp
    moreover from finalizeReport_Inr(1)[OF r] sa have "pages r = q # []" by simp
    ultimately show ?thesis by blast
  next
    case False
    with c have "s1 = sa" by (simp add: safetyCheck_def)
    with sc sa have sc': "scanPages m sa ys = Inr s'" and "current sa \<noteq> []" by simp_all
    from open_group[OF sc' assms(2) this(2)] sa show ?thesis by auto
  qed
qed

text \<open>
  Claim C4 (forced split resets the anchor). Let \<open>s\<close> be the state of the loop after
  the pages \<open>xs\<close>, and \<open>s1\<close> the state after the push of the next page \<open>pg\<close>.
  When the group of \<open>s1\<close> has reached \<open>maxPagesPerPatient\<close>, the step emits it at
  once as the next report \<open>r\<close> and leaves an empty group and an absent anchor, whatever
  candidate the last pages gave. A following page \<open>q\<close> with a candidate \<open>c\<close>, also
  one that presents the identity of the group just emitted, takes the branch of the first
  patient: the reports are unchanged, \<open>q\<close> is the only page of the new group and \<open>c\<close>
  is the new anchor. In every result of the call the reports made up to the forced split
  are followed by a report that begins with \<open>q\<close>, and the call returns whenever the
  extraction throws on no later page.
\<close>

theorem forced_split_resets_anchor:
  assumes "scanPages maxPagesPerPatient initialState xs = Inr s"
    and "addPage s pg = Inr s1"
    and "maxPagesPerPatient \<le> int (length (current s1))"
    and "extractPatientInfo q = Inr (Some c)"
  shows "\<exists>r. finalizeReport (current s1) (length (reports s1)) = Inr r
         \<and> pageStep maxPagesPerPatient s pg =
             Inr \<lparr>reports = reports s1 @ [r], current = [], currentPatientInfo = None\<rparr>
         \<and> addPage \<lparr>reports = reports s1 @ [r], current = [], currentPatientInfo = None\<rparr> q =
             Inr \<lparr>reports = reports s1 @ [r], current = [q], currentPatientInfo = Some c\<rparr>
         \<and> (\<forall>rs. splitIntoPatientReports maxPagesPerPatient (Some (xs @ pg # q # ys)) = Inr rs \<longrightarrow>
               (\<exists>r' ext rest. rs = reports s1 @ r # r' # ext \<and> pages r' = q # rest))
         \<and> ((\<forall>y \<in> set ys. extractPatientInfo y \<noteq> Inl TypeError) \<longrightarrow>
               (\<exists>rs. splitIntoPatientReports maxPagesPerPatient (Some (xs @ pg # q # ys)) = Inr rs))"
proof -
  let ?m = maxPagesPerPatient
  have gx: "goodPages xs" by (rule scanPages_Inr_good[OF assms(1)])
  have gp: "extractPatientInfo pg \<noteq> Inl TypeError" by (rule addPage_Inr(3)[OF assms(2)])
  from scanPages_Inr_content[OF assms(1)] have cs: "content s = xs"
    by (simp add: content_initialState)
  with addPage_Inr(1)[OF assms(2)] gx gp have "goodPages (content s1)"
    by (simp add: goodPages_append goodPages_Cons goodPages_Nil)
  then have "goodPages (current s1)" by (rule goodPages_current)
  from finalizeReport_good[OF this, of "length (reports s1)"] obtain r
    where r: "finalizeReport (current s1) (length (reports s1)) = Inr r" ..
  let ?f = "\<lparr>reports = reports s1 @ [r], current = [], currentPatientInfo = None\<rparr>"
  have forced: "pageStep ?m s pg = Inr ?f"
    using assms(2,3) r by (simp add: pageStep_def safetyCheck_def)
  have seed: "addPage ?f q =
      Inr \<lparr>reports = reports s1 @ [r], current = [q], currentPatientInfo = Some c\<rparr>"
    using assms(4) by (simp add: addPage_def Let_def isDifferentPatient_None)
  have scan: "scanPages ?m initialState (xs @ pg # q # ys) = scanPages ?m ?f (q # ys)"
    using assms(1) forced by (simp add: scanPages_append)
  have run: "\<exists>r' ext rest. rs = reports s1 @ r # r' # ext \<and> pages r' = q # rest"
    if "splitIntoPatientReports ?m (Some (xs @ pg # q # ys)) = Inr rs" for rs
  proof -
    from split_Inr(2)[OF that] scan obtain s'
      where sc: "scanPages ?m ?f (q # ys) = Inr s'" and fl: "flushLast s' = Inr rs" by auto
    have "current ?f = []" by simp
    from next_group[OF sc fl this] show ?thesis by auto
  qed
  have ret: "\<exists>rs. splitIntoPatientReports ?m (Some (xs @ pg # q # ys)) = Inr rs"
    if "\<forall>y \<in> set ys. extractPatientInfo y \<noteq> Inl TypeError"
  proof -
    from gx gp assms(4) that have "goodPages (xs @ pg # q # ys)"
      by (auto simp: goodPages_iff)
    then show ?thesis by (intro split_good) simp_all
  qed
  from r forced seed run ret show ?thesis by blast
qed

lemma scan_stateA: "scanPages 2 initialState [pageA] = Inr stateA"
  by (simp add: stateA_def pageStep_def safetyCheck_def addPage_def Let_def extract_pageA
      initialState_def isDifferentPatient_def)

lemma addPage_stateA:
  "addPage stateA pageA' =
     Inr \<lparr>reports = [], current = [pageA, pageA'], currentPatientInfo = Some infoA\<rparr>"
  by (simp add: stateA_def addPage_def Let_def extract_pageA' isDifferentPatient_def truthy_def
      infoA_def infoA'_def)

lemma finalize_AA: "finalizeReport [pageA, pageA'] 0 = Inr reportAA"
proof -
  have i: "pageIndexOr0 pageA = 0" "pageIndexOr0 pageA' = 1"
    by (simp_all add: pageIndexOr0_def pageA_def pageA'_def)
  show ?thesis by (simp add: finalizeReport_def extract_pageA i reportAA_def)
qed

text \<open>With cap 2: \<open>pageA\<close> and \<open>pageA'\<close> carry the patient id A100 and fill the
  group; the next page with the same id starts a group of its own.\<close>

theorem forced_split_resets_anchor_witness:
  "scanPages 2 initialState [pageA] = Inr stateA
   \<and> currentPatientInfo stateA = Some infoA
   \<and> addPage stateA pageA' =
        Inr \<lparr>reports = [], current = [pageA, pageA'], currentPatientInfo = Some infoA\<rparr>
   \<and> (2::int) \<le> int (length [pageA, pageA'])
   \<and> extractPatientInfo pageA' = Inr (Some infoA')
   \<and> pageStep 2 stateA pageA' =
        Inr \<lparr>reports = [reportAA], current = [], currentPatientInfo = None\<rparr>
   \<and> addPage \<lparr>reports = [reportAA], current = [], currentPatientInfo = None\<rparr> pageA' =
        Inr \<lparr>reports = [reportAA], current = [pageA'], currentPatientInfo = Some infoA'\<rparr>
   \<and> (\<exists>rs r' ext rest.
         splitIntoPatientReports 2 (Some ([pageA] @ pageA' # pageA' # [])) = Inr rs
         \<and> rs = reportAA # r' # ext \<and> pages r' = pageA' # rest)"
proof -
  let ?s1 = "\<lparr>reports = [], current = [pageA, pageA'], currentPatientInfo = Some infoA\<rparr>"
  have h: "(2::int) \<le> int (length (current ?s1))" by simp
  have a: "currentPatientInfo stateA = Some infoA" by (simp add: stateA_def)
  from forced_split_resets_anchor[OF scan_stateA addPage_stateA h extract_pageA', of "[]"]
  obtain r where r: "finalizeReport (current ?s1) (length (reports ?s1)) = Inr r"
    and step: "pageStep 2 stateA pageA' =
             Inr \<lparr>reports = reports ?s1 @ [r], current = [], currentPatientInfo = None\<rparr>"
    and seed: "addPage \<lparr>reports = reports ?s1 @ [r], current = [], currentPatientInfo = None\<rparr> pageA' =
             Inr \<lparr>reports = reports ?s1 @ [r], current = [pageA'], currentPatientInfo = Some infoA'\<rparr>"
    and run: "\<forall>rs. splitIntoPatientReports 2 (Some ([pageA] @ pageA' # pageA' # [])) = Inr rs \<longrightarrow>
               (\<exists>r' ext rest. rs = reports ?s1 @ r # r' # ext \<and> pages r' = pageA' # rest)"
    and ret: "(\<forall>y \<in> set []. extractPatientInfo y \<noteq> Inl TypeError) \<longrightarrow>
               (\<exists>rs. splitIntoPatientReports 2 (Some ([pageA] @ pageA' # pageA' # [])) = Inr rs)"
    by blast
  from r finalize_AA have eq: "r = reportAA" by simp
  from ret obtain rs
    where rs: "splitIntoPatientReports 2 (Some ([pageA] @ pageA' # pageA' # [])) = Inr rs"
    by auto
  with run eq have "\<exists>r' ext rest. rs = reportAA # r' # ext \<and> pages r' = pageA' # rest"
    by auto
  with rs have full: "\<exists>rs r' ext rest.
         splitIntoPatientReports 2 (Some ([pageA] @ pageA' # pageA' # [])) = Inr rs
         \<and> rs = reportAA # r' # ext \<and> pages r' = pageA' # rest" by blast
  from step eq have step': "pageStep 2 stateA pageA' =
        Inr \<lparr>reports = [reportAA], current = [], currentPatientInfo = None\<rparr>" by simp
  from seed eq have seed': "addPage \<lparr>reports = [reportAA], current = [], currentPatientInfo = None\<rparr> pageA' =
        Inr \<lparr>reports = [reportAA], current = [pageA'], currentPatientInfo = Some infoA'\<rparr>" by simp
  have l: "(2::int) \<le> int (length [pageA, pageA'])" by simp
  from scan_stateA a addPage_stateA l extract_pageA' step' seed' full
  show ?thesis by (simp only: simp_thms)
qed

section \<open>The decision of \<open>isDifferentPatient\<close>\<close>

lemma truthy_iff: "truthy v \<longleftrightarrow> v \<noteq> None \<and> v \<noteq> Some []"
  by (cases v) (simp_all add: truthy_def)

text \<open>
  Claim C3 (split-decision precedence), amended: a field takes part in a comparison when
  it is non-null and non-empty. Without an anchor the result is true exactly when a
  candidate is present; with an anchor and no candidate it is false; else, if both patient
  ids are non-null and non-empty, it is true exactly when they differ, whatever the names
  and the dates of birth; else, if both names are non-null and non-empty, exactly when
  they differ; else, if both dates of birth are non-null and non-empty, exactly when they
  differ; else false.
\<close>

theorem isDifferentPatient_precedence:
  "isDifferentPatient None candidate = (candidate \<noteq> None)
   \<and> isDifferentPatient (Some a) None = False
   \<and> isDifferentPatient (Some a) (Some b) =
       (if (patientId a \<noteq> None \<and> patientId a \<noteq> Some []) \<and>
           (patientId b \<noteq> None \<and> patientId b \<noteq> Some [])
        then patientId a \<noteq> patientId b
        else if (name a \<noteq> None \<and> name a \<noteq> Some []) \<and> (name b \<noteq> None \<and> name b \<noteq> Some [])
        then name a \<noteq> name b
        else if (dob a \<noteq> None \<and> dob a \<noteq> Some []) \<and> (dob b \<noteq> None \<and> dob b \<noteq> Some [])
        then dob a \<noteq> dob b
        else False)"
  by (simp add: isDifferentPatient_def truthy_iff)

text \<open>Two candidates with the same name and different patient ids are different.\<close>

theorem isDifferentPatient_precedence_witness:
  "name infoA = name infoB \<and> isDifferentPatient (Some infoA) (Some infoB)"
  using isDifferentPatient_precedence[of None infoA infoB]
  by (simp add: infoA_def infoB_def)

text \<open>
  The claim as stated, with "non-null" alone, fails: the key-value pairs of
  \<open>pageEmptyId\<close> give the patient id \<^verbatim>\<open>#\<close>, which is cleaned to the empty string, so
  its candidate has a non-null patient id that differs from the one of \<open>pageB\<close>; the
  empty string is falsy, the names are compared, and the two are judged the same patient.
\<close>

theorem isDifferentPatient_counterexample:
  "extractPatientInfo pageEmptyId = Inr (Some infoEmptyId)
   \<and> extractPatientInfo pageB = Inr (Some infoB)
   \<and> patientId infoEmptyId \<noteq> None \<and> patientId infoB \<noteq> None
   \<and> patientId infoEmptyId \<noteq> patientId infoB
   \<and> \<not> isDifferentPatient (Some infoEmptyId) (Some infoB)"
  by code_simp

section \<open>The fields of a candidate\<close>

lemma trim_prefix:
  "dropWhile isSpace s = trim s @ rev (takeWhile isSpace (rev (dropWhile isSpace s)))"
proof -
  have "rev (takeWhile isSpace (rev (dropWhile isSpace s)) @
             dropWhile isSpace (rev (dropWhile isSpace s))) = dropWhile isSpace s"
    by (simp only: takeWhile_dropWhile_id rev_rev_ident)
  then show ?thesis by (simp only: trim_def rev_append)
qed

lemma dropWhile_trim: "dropWhile isSpace (trim s) = trim s"
proof (cases "trim s = []")
  case True
  then show ?thesis by simp
next
  case False
  from trim_prefix[of s] False have ne: "dropWhile isSpace s \<noteq> []"
    by (metis append_is_Nil_conv)
  from trim_prefix[of s] False have "hd (trim s) = hd (dropWhile isSpace s)"
    by (metis hd_append2)
  moreover from ne have "\<not> isSpace (hd (dropWhile isSpace s))" by (rule hd_dropWhile)
  ultimately have "\<not> isSpace (hd (trim s))" by simp
  then show ?thesis by (simp add: dropWhile_eq_self_iff)
qed

lemma trim_trim: "trim (trim s) = trim s"
proof -
  have "trim (trim s) = rev (dropWhile isSpace (rev (trim s)))"
    by (simp add: trim_def[of "trim s"] dropWhile_trim)
  also have "\<dots> = trim s" by (simp add: trim_def)
  finally show ?thesis .
qed

lemma set_trim: "set (trim s) \<subseteq> set s"
proof
  fix c assume "c \<in> set (trim s)"
  then have "c \<in> set (dropWhile isSpace (rev (dropWhile isSpace s)))" by (simp add: trim_def)
  then have "c \<in> set (rev (dropWhile isSpace s))" by (rule set_dropWhileD)
  then have "c \<in> set (dropWhile isSpace s)" by simp
  then show "c \<in> set s" by (rule set_dropWhileD)
qed

lemma trim_Nil: "trim [] = []"
  by (simp add: trim_def)

lemma cleanedField_cleanPatientValue: "cleanedField (cleanPatientValue v)"
proof -
  have "set (trim (filter keepChar (trim v))) \<subseteq> set (filter keepChar (trim v))" by (rule set_trim)
  then have "list_all keepChar (trim (filter keepChar (trim v)))" by (auto simp: list_all_iff)
  then show ?thesis by (simp add: cleanedField_def cleanPatientValue_def trim_trim)
qed

lemma cleanedField_probeKeys: "cleanedField (probeKeys kv keys)"
proof (induction keys)
  case Nil
  show ?case by (simp add: cleanedField_def)
next
  case (Cons key keys)
  then show ?case by (simp add: cleanedField_cleanPatientValue)
qed

lemma cleanedField_tableField:
  "tableField keys cell nxt cur = Inr v \<Longrightarrow> cleanedField cur \<Longrightarrow> cleanedField v"
  using cleanedField_cleanPatientValue
  by (auto simp: tableField_def split: if_splits sum.splits option.splits)

lemma cleanedInfo_cellStep:
  "cellStep cell nxt info = Inr info' \<Longrightarrow> cleanedInfo info \<Longrightarrow> cleanedInfo info'"
  by (auto simp: cleanedInfo_def cellStep_def split: cell.splits if_splits sum.splits
      dest: cleanedField_tableField)

lemma cleanedInfo_rowLoop:
  "rowLoop cells info = Inr info' \<Longrightarrow> cleanedInfo info \<Longrightarrow> cleanedInfo info'"
  by (induction cells arbitrary: info) (auto split: sum.splits dest: cleanedInfo_cellStep)

lemma cleanedInfo_rowsLoop:
  "rowsLoop rs info = Inr info' \<Longrightarrow> cleanedInfo info \<Longrightarrow> cleanedInfo info'"
  by (induction rs arbitrary: info)
    (auto split: option.splits sum.splits dest: cleanedInfo_rowLoop)

lemma cleanedInfo_extractFromTables:
  "extractFromTables ts info = Inr info' \<Longrightarrow> cleanedInfo info \<Longrightarrow> cleanedInfo info'"
  by (induction ts arbitrary: info)
    (auto split: option.splits sum.splits rowsValue.splits dest: cleanedInfo_rowsLoop)

lemma cleanedInfo_probeKeyValuePairs: "cleanedInfo (probeKeyValuePairs kv)"
  by (simp add: cleanedInfo_def probeKeyValuePairs_def cleanedField_probeKeys)

lemma cleanedInfo_resolveFields:
  assumes "resolveFields pd = Inr info"
  shows "cleanedInfo info"
proof -
  let ?info = "case keyValuePairs pd of
                 None \<Rightarrow> \<lparr>name = None, patientId = None, dob = None\<rparr>
               | Some kv \<Rightarrow> probeKeyValuePairs kv"
  have i: "cleanedInfo ?info"
    by (cases "keyValuePairs pd")
      (simp_all add: cleanedInfo_probeKeyValuePairs, simp add: cleanedInfo_def cleanedField_def)
  from assms have "info = ?info \<or> (\<exists>ts. extractFromTables ts ?info = Inr info)"
    by (auto simp: resolveFields_def Let_def split: option.splits if_splits)
  with i show ?thesis by (auto dest: cleanedInfo_extractFromTables)
qed

text \<open>
  Claim C5, amended. Every field of a candidate that \<open>extractPatientInfo\<close> returns is
  null or a string of word characters, white space and hyphens with no white space at
  either end, and the name or the patient id is a non-empty string. (The cleaner of the
  splitter checks nothing more: a field can be the empty string, and a name can be all
  digits.)
\<close>

theorem candidate_fields_cleaned:
  assumes "extractPatientInfo pg = Inr (Some info)"
  shows "cleanedField (name info) \<and> cleanedField (patientId info) \<and> cleanedField (dob info)
         \<and> (truthy (name info) \<or> truthy (patientId info))"
proof -
  from assms obtain pd where pd: "pg = Some pd" "resolveFields pd = Inr info"
    and t: "truthy (name info) \<or> truthy (patientId info)"
    by (auto simp: extractPatientInfo_def split: option.splits sum.splits if_splits)
  from cleanedInfo_resolveFields[OF pd(2)] t show ?thesis
    by (simp add: cleanedInfo_def)
qed

text \<open>A page without key-value pairs whose table gives the name in the next cell and
  the id after a colon.\<close>

theorem candidate_fields_cleaned_witness:
  "extractPatientInfo pageTable = Inr (Some infoA)
   \<and> cleanedField (name infoA) \<and> cleanedField (patientId infoA) \<and> cleanedField (dob infoA)
   \<and> (truthy (name infoA) \<or> truthy (patientId infoA))"
proof -
  have e: "extractPatientInfo pageTable = Inr (Some infoA)" by code_simp
  from candidate_fields_cleaned[OF e] e show ?thesis by (simp only: simp_thms)
qed

text \<open>
  The claim as stated fails on \<open>pageNumericName\<close>, whose key-value pairs are the name
  \<^verbatim>\<open>12345\<close> and the patient id \<^verbatim>\<open>###\<close>: the candidate has an all-digit name and
  the empty string as patient id.
\<close>

theorem candidate_fields_counterexample:
  "extractPatientInfo pageNumericName =
     Inr (Some \<lparr>name = Some ''12345'', patientId = Some [], dob = None\<rparr>)
   \<and> digitsOnly ''12345''"
  by code_simp

text \<open>
  Claim C9. A page whose name and patient id are both unresolved after key-value probing
  and table fallback gives no candidate, whatever its date of birth.
\<close>

theorem no_candidate_without_name_or_id:
  assumes "resolveFields pd = Inr info"
    and "\<not> truthy (name info)" and "\<not> truthy (patientId info)"
  shows "extractPatientInfo (Some pd) = Inr None"
  using assms by (simp add: extractPatientInfo_def)

theorem no_candidate_without_name_or_id_witness:
  "resolveFields pageDobOnly = Inr \<lparr>name = None, patientId = None, dob = Some ''01021990''\<rparr>
   \<and> \<not> truthy None
   \<and> extractPatientInfo (Some pageDobOnly) = Inr None"
proof -
  have r: "resolveFields pageDobOnly = Inr \<lparr>name = None, patientId = None, dob = Some ''01021990''\<rparr>"
    by code_simp
  have n: "\<not> truthy (name \<lparr>name = None, patientId = None, dob = Some ''01021990''\<rparr>)"
    and i: "\<not> truthy (patientId \<lparr>name = None, patientId = None, dob = Some ''01021990''\<rparr>)"
    by (simp_all add: truthy_def)
  from no_candidate_without_name_or_id[OF r n i] n r show ?thesis by simp
qed

section \<open>Field cleaning of the metadata extractor\<close>

lemma digitsOnly_iff: "digitsOnly s \<longleftrightarrow> s \<noteq> [] \<and> (\<forall>c \<in> set s. isDigit c)"
  by (induction s rule: digitsOnly.induct) auto

lemma hasDigit_iff: "hasDigit s \<longleftrightarrow> (\<exists>c \<in> set s. isDigit c)"
  by (induction s) auto

lemma length_trim: "length (trim s) \<le> length s"
proof -
  have "length (trim s) = length (dropWhile isSpace (rev (dropWhile isSpace s)))"
    by (simp add: trim_def)
  also have "\<dots> \<le> length (rev (dropWhile isSpace s))" by (rule length_dropWhile_le)
  also have "\<dots> = length (dropWhile isSpace s)" by simp
  also have "\<dots> \<le> length s" by (rule length_dropWhile_le)
  finally show ?thesis .
qed

text \<open>The last trim of a name changes nothing in the rejection: a stripped value that is
  short or all digits is rejected.\<close>

lemma cleanValue_name_stripped:
  assumes "length (filter keepChar (trim v)) < 2 \<or>
           (\<forall>c \<in> set (filter keepChar (trim v)). isDigit c)"
  shows "cleanValue v ''name'' = None"
proof -
  let ?r0 = "filter keepChar (trim v)"
  have "length (trim ?r0) < 2 \<or> digitsOnly (trim ?r0)"
  proof (cases "length (trim ?r0) < 2")
    case True
    then show ?thesis by simp
  next
    case False
    with length_trim[of ?r0] have "\<not> length ?r0 < 2" by simp
    with assms have "\<forall>c \<in> set ?r0. isDigit c" by blast
    with set_trim[of ?r0] have "\<forall>c \<in> set (trim ?r0). isDigit c" by blast
    moreover from False have "trim ?r0 \<noteq> []" by auto
    ultimately show ?thesis by (simp add: digitsOnly_iff)
  qed
  then show ?thesis by (simp add: cleanValue_def Let_def)
qed

text \<open>
  Claim C7 (contract of \<open>cleanValue\<close>). The function is total on strings and its
  failure value is null. For the kind name the result is the value with every character
  removed that is not a word character, white space or a hyphen, trimmed, and null when
  that has fewer than 2 characters or only digits. For the kind dob it is the trimmed
  value, and null when that has no digit or fewer than 6 characters. For the kind
  patientId it is the trimmed value without its non-word characters, and null when that
  has fewer than 3 characters. A name is also null whenever the stripped value, before
  its last trim, has fewer than 2 characters or only digits.
\<close>

theorem cleanValue_contract:
  "cleanValue v ''name'' =
     (let r = trim (filter (\<lambda>c. isWord c \<or> isSpace c \<or> c = CHR ''-'') (trim v)) in
      if length r < 2 \<or> (\<forall>c \<in> set r. isDigit c) then None else Some r)
   \<and> cleanValue v ''dob'' =
     (let r = trim v in
      if (\<forall>c \<in> set r. \<not> isDigit c) \<or> length r < 6 then None else Some r)
   \<and> cleanValue v ''patientId'' =
     (let r = filter (\<lambda>c. isWord c) (trim v) in
      if length r < 3 then None else Some r)
   \<and> (length (filter (\<lambda>c. isWord c \<or> isSpace c \<or> c = CHR ''-'') (trim v)) < 2 \<or>
        (\<forall>c \<in> set (filter (\<lambda>c. isWord c \<or> isSpace c \<or> c = CHR ''-'') (trim v)). isDigit c)
       \<longrightarrow> cleanValue v ''name'' = None)"
proof -
  have k: "keepChar = (\<lambda>c. isWord c \<or> isSpace c \<or> c = CHR ''-'')"
    by (rule ext) (simp add: keepChar_def)
  have n: "length r < 2 \<or> digitsOnly r \<longleftrightarrow> length r < 2 \<or> (\<forall>c \<in> set r. isDigit c)" for r
    by (cases r) (auto simp: digitsOnly_iff)
  have "cleanValue v ''name'' =
     (let r = trim (filter (\<lambda>c. isWord c \<or> isSpace c \<or> c = CHR ''-'') (trim v)) in
      if length r < 2 \<or> (\<forall>c \<in> set r. isDigit c) then None else Some r)"
    by (cases "v = []") (simp_all add: cleanValue_def Let_def k[symmetric] n trim_Nil)
  moreover have "cleanValue v ''dob'' =
     (let r = trim v in
      if (\<forall>c \<in> set r. \<not> isDigit c) \<or> length r < 6 then None else Some r)"
    by (cases "v = []") (simp_all add: cleanValue_def Let_def hasDigit_iff trim_Nil)
  moreover have "cleanValue v ''patientId'' =
     (let r = filter (\<lambda>c. isWord c) (trim v) in
      if length r < 3 then None else Some r)"
    by (cases "v = []") (simp_all add: cleanValue_def Let_def trim_Nil)
  moreover have "length (filter (\<lambda>c. isWord c \<or> isSpace c \<or> c = CHR ''-'') (trim v)) < 2 \<or>
        (\<forall>c \<in> set (filter (\<lambda>c. isWord c \<or> isSpace c \<or> c = CHR ''-'') (trim v)). isDigit c)
       \<longrightarrow> cleanValue v ''name'' = None"
    using cleanValue_name_stripped[of v] by (simp only: k) blast
  ultimately show ?thesis by (simp only: simp_thms)
qed

theorem cleanValue_contract_witness:
  "cleanValue '' Dr. Ann Lee! '' ''name'' = Some ''Dr Ann Lee''
   \<and> cleanValue ''12345'' ''name'' = None
   \<and> cleanValue ''#7'' ''name'' = None
   \<and> cleanValue '' 01/02/1990 '' ''dob'' = Some ''01/02/1990''
   \<and> cleanValue ''1990'' ''dob'' = None
   \<and> cleanValue ''unknown'' ''dob'' = None
   \<and> cleanValue ''MRN-100'' ''patientId'' = Some ''MRN100''
   \<and> cleanValue ''A-1'' ''patientId'' = None"
  using cleanValue_contract[of "'' Dr. Ann Lee! ''"] cleanValue_contract[of "''12345''"]
    cleanValue_contract[of "''#7''"] cleanValue_contract[of "'' 01/02/1990 ''"]
    cleanValue_contract[of "''1990''"] cleanValue_contract[of "''unknown''"]
    cleanValue_contract[of "''MRN-100''"] cleanValue_contract[of "''A-1''"]
  by (simp add: trim_def isWord_def isSpace_def isDigit_def)

section \<open>Key-value probing\<close>

lemma probeKeys_first:
  assumes "\<forall>k \<in> set before. \<not> truthy (kv k)" and "truthy (kv key)"
  shows "probeKeys kv (before @ key # after) = cleanPatientValue (the (kv key))"
  using assms by (induction before) simp_all

lemma probeField_first:
  assumes "\<forall>k \<in> set before. \<not> truthy (kv k)" and "truthy (kv key)" and "\<not> truthy (md field)"
  shows "probeField kv field (before @ key # after) md = md(field := cleanValue (the (kv key)) field)"
  using assms by (induction before) simp_all

lemma probeField_other: "f \<noteq> field \<Longrightarrow> probeField kv field keys md f = md f"
  by (induction keys) simp_all

lemma probeField_cong:
  "md field = md' field \<Longrightarrow> probeField kv field keys md field = probeField kv field keys md' field"
  by (induction keys) simp_all

lemma extractFromKeyValuePairs_other:
  "f \<notin> fst ` set fm \<Longrightarrow> extractFromKeyValuePairs fm kv md f = md f"
proof (induction fm arbitrary: md)
  case Nil
  then show ?case by simp
next
  case (Cons e fm)
  obtain field keys where e: "e = (field, keys)" by (cases e)
  with Cons.prems have "f \<noteq> field" "f \<notin> fst ` set fm" by auto
  with Cons.IH[of "probeField kv field keys md"] e show ?case
    by (simp add: probeField_other)
qed

text \<open>With distinct field names, a field is decided by its own list of keys.\<close>

lemma extractFromKeyValuePairs_field:
  assumes "distinct (map fst fm)" and "(field, keys) \<in> set fm"
  shows "extractFromKeyValuePairs fm kv md field = probeField kv field keys md field"
  using assms
proof (induction fm arbitrary: md)
  case Nil
  then show ?case by simp
next
  case (Cons e fm)
  obtain f ks where e: "e = (f, ks)" by (cases e)
  show ?case
  proof (cases "(field, keys) = e")
    case True
    with e have fk: "f = field" "ks = keys" by simp_all
    from Cons.prems(1) e fk have "field \<notin> fst ` set fm" by simp
    then show ?thesis using e fk by (simp add: extractFromKeyValuePairs_other)
  next
    case False
    with Cons.prems(2) have in_fm: "(field, keys) \<in> set fm" by simp
    then have "field \<in> fst ` set fm" by force
    with Cons.prems(1) e have ne: "field \<noteq> f" by auto
    from Cons.prems(1) have "distinct (map fst fm)" by simp
    from Cons.IH[OF this in_fm, of "probeField kv f ks md"] e
    have "extractFromKeyValuePairs (e # fm) kv md field =
          probeField kv field keys (probeField kv f ks md) field" by simp
    also from ne have "\<dots> = probeField kv field keys md field"
      by (intro probeField_cong) (simp add: probeField_other)
    finally show ?thesis .
  qed
qed

text \<open>
  Claim C8 (first match wins). When \<open>key\<close> is the first key of a field's list with a
  non-empty value, the field is the cleaned value of \<open>key\<close>, null or invalid as it may
  be, and the keys after it are not read: in the alias loops of \<open>extractPatientInfo\<close>,
  and in \<open>extractFromKeyValuePairs\<close> of the metadata extractor for a field that is not
  set yet.
\<close>

theorem first_match_wins:
  assumes "\<forall>k \<in> set before. \<not> truthy (kv k)" and "truthy (kv key)"
  shows "probeKeys kv (before @ key # after) = cleanPatientValue (the (kv key))
       \<and> (distinct (map fst fm) \<and> (field, before @ key # after) \<in> set fm \<and> \<not> truthy (md field) \<longrightarrow>
            extractFromKeyValuePairs fm kv md field = cleanValue (the (kv key)) field)"
proof -
  have "extractFromKeyValuePairs fm kv md field = cleanValue (the (kv key)) field"
    if "distinct (map fst fm)" "(field, before @ key # after) \<in> set fm" "\<not> truthy (md field)"
    using extractFromKeyValuePairs_field[OF that(1,2), of kv md]
      probeField_first[of before kv key md field after] assms that(3)
    by simp
  with probeKeys_first[OF assms] show ?thesis by blast
qed

text \<open>The first name key has the value \<^verbatim>\<open>7\<close>, the second a full name: the metadata
  extractor ends with a null name, the splitter with the name \<^verbatim>\<open>7\<close>.\<close>

theorem first_match_wins_witness:
  "truthy (kvShortName ''patient name'')
   \<and> kvShortName ''name'' = Some ''John Doe''
   \<and> cleanValue ''John Doe'' ''name'' = Some ''John Doe''
   \<and> extractFromKeyValuePairs fieldMappings kvShortName emptyMetadata ''name'' = None
   \<and> probeKeys kvShortName nameKeys = Some ''7''"
proof -
  have t: "truthy (kvShortName ''patient name'')"
    by (simp add: kvShortName_def truthy_def)
  have b: "\<forall>k \<in> set []. \<not> truthy (kvShortName k)" by simp
  have v: "the (kvShortName ''patient name'') = ''7''" by (simp add: kvShortName_def)
  have c7: "cleanValue ''7'' ''name'' = None" "cleanPatientValue ''7'' = Some ''7''"
    "cleanValue ''John Doe'' ''name'' = Some ''John Doe''"
    by code_simp+
  from first_match_wins[OF b t, of "[''name'', ''patient'', ''full name'']"]
  have s: "probeKeys kvShortName nameKeys = Some ''7''"
    by (simp add: nameKeys_def v c7)
  from first_match_wins[OF b t,
      of "[''name'', ''patient'', ''full name'', ''patient full name'']" fieldMappings "''name''" emptyMetadata]
  have m: "extractFromKeyValuePairs fieldMappings kvShortName emptyMetadata ''name'' = None"
    by (simp add: fieldMappings_def emptyMetadata_def truthy_def v c7)
  have "kvShortName ''name'' = Some ''John Doe''" by (simp add: kvShortName_def)
  with t s m c7(3) show ?thesis by (simp only: simp_thms)
qed


end
